theory Spec2Isabelle
  imports Main
begin

section \<open>Strings of the batch script\<close>

text \<open>
  The batch script \<^verbatim>\<open>church_transcribe_batch.ps1\<close> works on .NET strings, sequences of
  UTF-16 code units. The model uses \<^typ>\<open>string\<close>: a character is a code unit below 256
  (the Latin-1 block, where code unit and code point coincide), so \<open>length\<close> is
  \<^verbatim>\<open>.Length\<close> on that range. Character classes are the .NET ones on that range.
\<close>

definition code :: "char \<Rightarrow> nat" where
  "code c = of_char c"

text \<open>\<^verbatim>\<open>Char.IsWhiteSpace\<close> and the regex class \<^verbatim>\<open>\s\<close>: U+0009..U+000D, U+0020, U+0085, U+00A0.\<close>

definition is_white_space :: "char \<Rightarrow> bool" where
  "is_white_space c \<longleftrightarrow> (9 \<le> code c \<and> code c \<le> 13) \<or> code c = 32 \<or> code c = 133 \<or> code c = 160"

text \<open>The regex class \<^verbatim>\<open>\d\<close> (decimal digits; on this range the ASCII digits).\<close>

definition is_digit :: "char \<Rightarrow> bool" where
  "is_digit c \<longleftrightarrow> 48 \<le> code c \<and> code c \<le> 57"

text \<open>The regex class \<^verbatim>\<open>[a-z0-9]\<close>.\<close>

definition is_lower_alnum :: "char \<Rightarrow> bool" where
  "is_lower_alnum c \<longleftrightarrow> (97 \<le> code c \<and> code c \<le> 122) \<or> (48 \<le> code c \<and> code c \<le> 57)"

definition is_hyphen :: "char \<Rightarrow> bool" where
  "is_hyphen c \<longleftrightarrow> c = CHR ''-''"

text \<open>\<^verbatim>\<open>[string]::IsNullOrWhiteSpace\<close>: null, empty, or white space only.\<close>

definition is_null_or_white_space :: "string \<Rightarrow> bool" where
  "is_null_or_white_space s \<longleftrightarrow> list_all is_white_space s"

text \<open>
  \<^verbatim>\<open>String.ToLowerInvariant\<close>, code unit by code unit: A..Z, and U+00C0..U+00DE
  without the multiplication sign U+00D7, move up by 32.
\<close>

definition to_lower_char :: "char \<Rightarrow> char" where
  "to_lower_char c =
     (if (65 \<le> code c \<and> code c \<le> 90) \<or> (192 \<le> code c \<and> code c \<le> 222 \<and> code c \<noteq> 215)
      then char_of (code c + 32) else c)"

definition to_lower_invariant :: "string \<Rightarrow> string" where
  "to_lower_invariant s = map to_lower_char s"

text \<open>\<^verbatim>\<open>String.Trim(chars)\<close> removes the characters of a class at both ends.\<close>

definition trim_where :: "(char \<Rightarrow> bool) \<Rightarrow> string \<Rightarrow> string" where
  "trim_where p s = rev (dropWhile p (rev (dropWhile p s)))"

definition trim :: "string \<Rightarrow> string" where
  "trim s = trim_where is_white_space s"

text \<open>
  \<^verbatim>\<open>[regex]::Replace(s, "[class]+", r)\<close>: scanning from the left, every maximal run of
  characters of the class is replaced by \<open>r\<close>.
\<close>

function replace_runs :: "(char \<Rightarrow> bool) \<Rightarrow> string \<Rightarrow> string \<Rightarrow> string" where
  "replace_runs p r [] = []"
| "replace_runs p r (c # cs) =
     (if p c then r @ replace_runs p r (dropWhile p cs) else c # replace_runs p r cs)"
  by pat_completeness auto
termination
  by (relation "measure (\<lambda>(p, r, s). length s)")
     (auto simp: less_Suc_eq_le length_dropWhile_le)

section \<open>Get-Slug\<close>

text \<open>
  \<^verbatim>\<open>
  function Get-Slug {
    param([string]$Text)
    if ([string]::IsNullOrWhiteSpace($Text)) { return "service" }
    $s = $Text.ToLowerInvariant()
    $s = [regex]::Replace($s, "[^a-z0-9]+", "-")
    $s = [regex]::Replace($s, "-+", "-")
    $s = $s.Trim("-")
    if ([string]::IsNullOrWhiteSpace($s)) { $s = "service" }
    if ($s.Length -gt 96) { $s = $s.Substring(0, 96).Trim("-") }
    return $s
  }
  \<close>
\<close>

definition get_slug :: "string \<Rightarrow> string" where
  "get_slug text =
     (if is_null_or_white_space text then ''service''
      else
        let s = to_lower_invariant text;
            s = replace_runs (\<lambda>c. \<not> is_lower_alnum c) ''-'' s;
            s = replace_runs is_hyphen ''-'' s;
            s = trim_where is_hyphen s;
            s = (if is_null_or_white_space s then ''service'' else s);
            s = (if length s > 96 then trim_where is_hyphen (take 96 s) else s)
        in s)"

text \<open>The characters of the pattern \<^verbatim>\<open>^[a-z0-9-]+$\<close>.\<close>

definition is_slug_char :: "char \<Rightarrow> bool" where
  "is_slug_char c \<longleftrightarrow> is_lower_alnum c \<or> is_hyphen c"

subsection \<open>Properties of the slug\<close>

text \<open>No two adjacent characters of a string are both in the class.\<close>

fun separated :: "(char \<Rightarrow> bool) \<Rightarrow> string \<Rightarrow> bool" where
  "separated p [] = True"
| "separated p [c] = True"
| "separated p (c # d # cs) = (\<not> (p c \<and> p d) \<and> separated p (d # cs))"

lemma set_replace_runs: "set (replace_runs p r s) \<subseteq> set r \<union> {c \<in> set s. \<not> p c}"
proof (induction p r s rule: replace_runs.induct)
  case (1 p r)
  then show ?case by simp
next
  case (2 p r c cs)
  have "set (dropWhile p cs) \<subseteq> set cs" by (rule set_dropWhileD[THEN subsetI]) 
  with 2 show ?case by auto
qed

lemma trim_where_take_drop: "\<exists>a b. trim_where p s = take a (drop b s)"
  unfolding trim_where_def
  by (metis dropWhile_eq_drop rev_drop rev_rev_ident)

lemma set_trim_where: "set (trim_where p s) \<subseteq> set s"
  unfolding trim_where_def
  by (metis set_rev set_dropWhileD subsetI)

lemma length_trim_where: "length (trim_where p s) \<le> length s"
  unfolding trim_where_def
  by (metis length_rev length_dropWhile_le le_trans)

lemma last_dropWhile: "dropWhile p xs \<noteq> [] \<Longrightarrow> last (dropWhile p xs) = last xs"
  by (induction xs) (auto split: if_splits)

lemma trim_where_hd: "trim_where p s \<noteq> [] \<Longrightarrow> \<not> p (hd (trim_where p s))"
  unfolding trim_where_def
  by (metis hd_dropWhile hd_rev last_dropWhile rev_is_Nil_conv dropWhile.simps(1) rev.simps(1) last_rev)

lemma trim_where_last: "trim_where p s \<noteq> [] \<Longrightarrow> \<not> p (last (trim_where p s))"
  unfolding trim_where_def
  by (metis hd_dropWhile last_rev rev_is_Nil_conv)

lemma trim_where_id: "s \<noteq> [] \<Longrightarrow> \<not> p (hd s) \<Longrightarrow> \<not> p (last s) \<Longrightarrow> trim_where p s = s"
proof -
  assume a: "s \<noteq> []" "\<not> p (hd s)" "\<not> p (last s)"
  then have "dropWhile p s = s" by (cases s) auto
  moreover from a have "dropWhile p (rev s) = rev s"
    by (cases "rev s") (auto simp: hd_rev[symmetric])
  ultimately show ?thesis by (simp add: trim_where_def)
qed

lemma trim_where_keeps_hd:
  "s \<noteq> [] \<Longrightarrow> \<not> p (hd s) \<Longrightarrow> trim_where p s \<noteq> [] \<and> hd (trim_where p s) = hd s"
  by (metis dropWhile_eq_Nil_conv dropWhile_eq_self_iff last_dropWhile
    last_in_set last_rev rev.simps(1) rev_rev_ident trim_where_def)

lemma separated_Cons: "separated p (c # cs) \<Longrightarrow> separated p cs"
  by (cases cs) auto

lemma separated_cong: "(\<forall>c\<in>set s. p c = q c) \<Longrightarrow> separated p s \<Longrightarrow> separated q s"
  by (induction q s rule: separated.induct) auto

lemma separated_drop: "separated p s \<Longrightarrow> separated p (drop n s)"
proof (induction n arbitrary: s)
  case 0
  then show ?case by simp
next
  case (Suc n)
  then show ?case by (cases s) (auto dest: separated_Cons)
qed

lemma separated_take: "separated p s \<Longrightarrow> separated p (take n s)"
proof (induction p s arbitrary: n rule: separated.induct)
  case (3 p c d cs)
  show ?case
  proof (cases n)
    case 0
    then show ?thesis by simp
  next
    case (Suc m)
    from 3 have "separated p (take m (d # cs))" by simp
    with 3 Suc show ?thesis by (cases m) auto
  qed
qed (auto simp: take_Cons')

lemma separated_trim_where: "separated q s \<Longrightarrow> separated q (trim_where p s)"
proof -
  assume s: "separated q s"
  obtain a b where "trim_where p s = take a (drop b s)"
    using trim_where_take_drop by blast
  with s show ?thesis by (simp add: separated_take separated_drop)
qed

lemma hd_replace_runs: "\<not> p c \<Longrightarrow> replace_runs p r (c # cs) = c # replace_runs p r cs"
  by simp

lemma separated_replace_runs: "separated p (replace_runs p [h] s)"
proof (induction p "[h]" s rule: replace_runs.induct)
  case (1 p)
  then show ?case by simp
next
  case (2 p c cs)
  show ?case
  proof (cases "p c")
    case True
    have IH: "separated p (replace_runs p [h] (dropWhile p cs))"
      using 2 True by simp
    show ?thesis
    proof (cases "dropWhile p cs")
      case Nil
      then have "replace_runs p [h] (dropWhile p cs) = []"
        by (simp only: replace_runs.simps)
      with True show ?thesis by simp
    next
      case (Cons d ds)
      then have "\<not> p d" by (metis hd_dropWhile list.sel(1) list.distinct(1))
      with True Cons IH show ?thesis by simp
    qed
  next
    case False
    with 2 show ?thesis by (cases "replace_runs p [h] cs") auto
  qed
qed

lemma replace_runs_id:
  "separated p s \<Longrightarrow> (\<forall>c\<in>set s. p c \<longrightarrow> c = h) \<Longrightarrow> replace_runs p [h] s = s"
proof (induction p "[h]" s rule: replace_runs.induct)
  case (1 p)
  then show ?case by simp
next
  case (2 p c cs)
  show ?case
  proof (cases "p c")
    case True
    from "2.prems" True have dw: "dropWhile p cs = cs" by (cases cs) auto
    from "2.prems" have "separated p cs" by (auto dest: separated_Cons)
    with 2 True dw show ?thesis by auto
  next
    case False
    with 2 show ?thesis by (auto dest: separated_Cons)
  qed
qed

definition slug_shape :: "string \<Rightarrow> bool" where
  "slug_shape t \<longleftrightarrow> t \<noteq> [] \<and> list_all is_slug_char t \<and> \<not> is_hyphen (hd t) \<and> \<not> is_hyphen (last t)
     \<and> separated is_hyphen t"

lemma slug_char_not_white: "is_slug_char c \<Longrightarrow> \<not> is_white_space c"
  by (auto simp: is_slug_char_def is_white_space_def is_lower_alnum_def is_hyphen_def code_def)

lemma slug_char_lower: "is_slug_char c \<Longrightarrow> to_lower_char c = c"
  by (auto simp: is_slug_char_def to_lower_char_def is_lower_alnum_def is_hyphen_def code_def)

lemma hyphen_not_alnum: "is_hyphen c \<Longrightarrow> \<not> is_lower_alnum c"
  by (auto simp: is_lower_alnum_def is_hyphen_def code_def)

lemma service_shape: "slug_shape ''service''"
  by (simp add: slug_shape_def is_slug_char_def is_lower_alnum_def is_hyphen_def code_def)

lemma slug_shape_not_blank: "slug_shape t \<Longrightarrow> \<not> is_null_or_white_space t"
  by (cases t) (auto simp: slug_shape_def is_null_or_white_space_def dest: slug_char_not_white)

lemma slug_chars_blank: "list_all is_slug_char t \<Longrightarrow> is_null_or_white_space t \<longleftrightarrow> t = []"
  by (cases t) (auto simp: is_null_or_white_space_def dest: slug_char_not_white)

text \<open>The string after the two replacements and the trim.\<close>

definition slug_core :: "string \<Rightarrow> string" where
  "slug_core text =
     trim_where is_hyphen
       (replace_runs is_hyphen ''-''
         (replace_runs (\<lambda>c. \<not> is_lower_alnum c) ''-'' (to_lower_invariant text)))"

lemma get_slug_core:
  "get_slug x =
     (if is_null_or_white_space x then ''service''
      else let s = (if is_null_or_white_space (slug_core x) then ''service'' else slug_core x)
           in if length s > 96 then trim_where is_hyphen (take 96 s) else s)"
  by (simp add: get_slug_def slug_core_def Let_def)

lemma slug_core_chars: "list_all is_slug_char (slug_core x)"
proof -
  let ?s2 = "replace_runs (\<lambda>c. \<not> is_lower_alnum c) ''-'' (to_lower_invariant x)"
  let ?s3 = "replace_runs is_hyphen ''-'' ?s2"
  have "\<forall>c\<in>set ?s2. is_slug_char c"
    using set_replace_runs[of "\<lambda>c. \<not> is_lower_alnum c" "''-''" "to_lower_invariant x"]
    by (auto simp: is_slug_char_def is_hyphen_def)
  then have "\<forall>c\<in>set ?s3. is_slug_char c"
    using set_replace_runs[of is_hyphen "''-''" ?s2]
    by (auto simp: is_slug_char_def is_hyphen_def)
  then have "\<forall>c\<in>set (slug_core x). is_slug_char c"
    using set_trim_where[of is_hyphen ?s3] by (auto simp: slug_core_def)
  then show ?thesis by (simp add: list_all_iff)
qed

lemma slug_core_separated: "separated is_hyphen (slug_core x)"
  unfolding slug_core_def by (intro separated_trim_where separated_replace_runs)

lemma slug_core_shape: "slug_core x \<noteq> [] \<Longrightarrow> slug_shape (slug_core x)"
  unfolding slug_shape_def
  using slug_core_chars[of x] slug_core_separated[of x]
    trim_where_hd[of is_hyphen] trim_where_last[of is_hyphen]
  by (simp add: slug_core_def)

lemma truncate_shape:
  assumes "slug_shape t"
  shows "slug_shape (trim_where is_hyphen (take 96 t))"
proof -
  let ?u = "take 96 t"
  from assms have u: "?u \<noteq> []" "\<not> is_hyphen (hd ?u)"
    by (auto simp: slug_shape_def)
  then have ne: "trim_where is_hyphen ?u \<noteq> []" and h: "hd (trim_where is_hyphen ?u) = hd ?u"
    using trim_where_keeps_hd[of ?u is_hyphen] by auto
  have "set (trim_where is_hyphen ?u) \<subseteq> set t"
    using set_trim_where[of is_hyphen ?u] set_take_subset[of 96 t] by blast
  with assms have "list_all is_slug_char (trim_where is_hyphen ?u)"
    by (auto simp: slug_shape_def list_all_iff)
  moreover from assms have "separated is_hyphen (trim_where is_hyphen ?u)"
    by (auto simp: slug_shape_def intro: separated_trim_where separated_take)
  ultimately show ?thesis
    using ne h u trim_where_last[OF ne] by (simp add: slug_shape_def)
qed

lemma get_slug_shape: "slug_shape (get_slug x) \<and> length (get_slug x) \<le> 96"
proof (cases "is_null_or_white_space x")
  case True
  then show ?thesis by (simp add: get_slug_def service_shape)
next
  case False
  define s where "s = (if is_null_or_white_space (slug_core x) then ''service'' else slug_core x)"
  have s: "slug_shape s"
    using slug_core_shape[of x] slug_chars_blank[OF slug_core_chars, of x]
    by (auto simp: s_def service_shape)
  have "length (trim_where is_hyphen (take 96 s)) \<le> 96"
    using length_trim_where[of is_hyphen "take 96 s"] by simp
  with s False show ?thesis
    by (auto simp: get_slug_core s_def[symmetric] Let_def truncate_shape)
qed

lemma get_slug_fixed: "slug_shape t \<Longrightarrow> length t \<le> 96 \<Longrightarrow> get_slug t = t"
proof -
  assume t: "slug_shape t" and len: "length t \<le> 96"
  then have chars: "\<forall>c\<in>set t. is_slug_char c" by (simp add: slug_shape_def list_all_iff)
  then have low: "to_lower_invariant t = t"
    by (simp add: to_lower_invariant_def map_idI slug_char_lower)
  have sep: "separated is_hyphen t" using t by (simp add: slug_shape_def)
  have eq: "(\<lambda>c. \<not> is_lower_alnum c) c = is_hyphen c" if "c \<in> set t" for c
    using chars that by (auto simp: is_slug_char_def hyphen_not_alnum)
  have sep': "separated (\<lambda>c. \<not> is_lower_alnum c) t"
    using sep eq separated_cong[of t is_hyphen "\<lambda>c. \<not> is_lower_alnum c"] by simp
  have r1: "replace_runs (\<lambda>c. \<not> is_lower_alnum c) ''-'' t = t"
    using sep' chars by (intro replace_runs_id) (auto simp: is_slug_char_def is_hyphen_def)
  have r2: "replace_runs is_hyphen ''-'' t = t"
    using sep by (intro replace_runs_id) (auto simp: is_hyphen_def)
  have r3: "trim_where is_hyphen t = t"
    using t by (intro trim_where_id) (auto simp: slug_shape_def)
  from t have nb: "\<not> is_null_or_white_space t" by (rule slug_shape_not_blank)
  show ?thesis
    using nb len by (simp add: get_slug_def low r1 r2 r3 Let_def)
qed

lemma replace_runs_all:
  assumes "\<forall>c\<in>set s. p c"
  shows "replace_runs p r s = (if s = [] then [] else r)"
proof (cases s)
  case Nil
  then show ?thesis by simp
next
  case (Cons a list)
  with assms have "p a" and "dropWhile p list = []" by auto
  then have "replace_runs p r (a # list) = r @ replace_runs p r []"
    by (simp only: replace_runs.simps if_True)
  with Cons show ?thesis by simp
qed

lemma slug_core_nothing:
  assumes "list_all (\<lambda>c. \<not> is_lower_alnum (to_lower_char c)) x"
  shows "slug_core x = []"
proof -
  let ?s1 = "to_lower_invariant x"
  from assms have "\<forall>c\<in>set ?s1. \<not> is_lower_alnum c"
    by (auto simp: to_lower_invariant_def list_all_iff)
  then have "replace_runs (\<lambda>c. \<not> is_lower_alnum c) ''-'' ?s1 = (if ?s1 = [] then [] else ''-'')"
    by (rule replace_runs_all)
  then show ?thesis
    by (simp add: slug_core_def trim_where_def is_hyphen_def)
qed

text \<open>
  C8. For every input base filename the slug is non-empty, consists of the characters
  \<^verbatim>\<open>a-z\<close>, \<^verbatim>\<open>0-9\<close> and \<^verbatim>\<open>-\<close> only, is at most 96 characters long, neither starts nor
  ends with a hyphen, and is the literal \<^verbatim>\<open>service\<close> when the input holds no letter or digit
  (so that nothing is left of it after the replacements and the trim).
\<close>

theorem get_slug_wellformed:
  "get_slug x \<noteq> [] \<and> list_all is_slug_char (get_slug x) \<and> length (get_slug x) \<le> 96
   \<and> hd (get_slug x) \<noteq> CHR ''-'' \<and> last (get_slug x) \<noteq> CHR ''-''
   \<and> (list_all (\<lambda>c. \<not> is_lower_alnum (to_lower_char c)) x \<longrightarrow> get_slug x = ''service'')"
proof -
  have "slug_shape (get_slug x)" and "length (get_slug x) \<le> 96"
    using get_slug_shape[of x] by simp_all
  moreover have "get_slug x = ''service''"
    if "list_all (\<lambda>c. \<not> is_lower_alnum (to_lower_char c)) x"
    using slug_core_nothing[OF that]
    by (simp add: get_slug_core is_null_or_white_space_def)
  ultimately show ?thesis
    by (simp add: slug_shape_def is_hyphen_def)
qed

theorem get_slug_wellformed_witness:
  "list_all (\<lambda>c. \<not> is_lower_alnum (to_lower_char c)) ''?! --''
   \<and> get_slug ''?! --'' = ''service''
   \<and> list_all is_slug_char (get_slug ''Sunday AM - 3/10!!'')
   \<and> get_slug ''Sunday AM - 3/10!!'' \<noteq> []"
proof -
  have h: "list_all (\<lambda>c. \<not> is_lower_alnum (to_lower_char c)) ''?! --''"
    by (simp add: is_lower_alnum_def to_lower_char_def code_def)
  from get_slug_wellformed[of "''?! --''"] h have "get_slug ''?! --'' = ''service''"
    by blast
  with h get_slug_wellformed[of "''Sunday AM - 3/10!!''"] show ?thesis
    by blast
qed

text \<open>
  C10. The slug derivation is idempotent: the slug of a slug is that slug.
\<close>

theorem get_slug_idempotent: "get_slug (get_slug x) = get_slug x"
  using get_slug_shape[of x] by (simp add: get_slug_fixed)

section \<open>Get-DateBucket\<close>

text \<open>Decimal rendering of a number, as string interpolation and format strings print it.\<close>

definition digit_char :: "nat \<Rightarrow> char" where
  "digit_char n = char_of (48 + n)"

fun show_nat :: "nat \<Rightarrow> string" where
  "show_nat n = (if n < 10 then [digit_char n] else show_nat (n div 10) @ [digit_char (n mod 10)])"

declare show_nat.simps [simp del]

definition pad_left :: "nat \<Rightarrow> string \<Rightarrow> string" where
  "pad_left w s = replicate (w - length s) (CHR ''0'') @ s"

text \<open>The calendar date of \<^verbatim>\<open>LastWriteTime\<close>; \<^verbatim>\<open>ToString("yyyy-MM-dd")\<close> pads with zeros.\<close>

record date_time =
  year :: nat
  month :: nat
  day :: nat

definition format_date :: "date_time \<Rightarrow> string" where
  "format_date t =
     pad_left 4 (show_nat (year t)) @ ''-'' @ pad_left 2 (show_nat (month t)) @ ''-''
       @ pad_left 2 (show_nat (day t))"

text \<open>
  A \<^verbatim>\<open>System.IO.FileInfo\<close>: \<^verbatim>\<open>Name\<close> is \<^verbatim>\<open>BaseName\<close> followed by \<^verbatim>\<open>Extension\<close>, and
  \<^verbatim>\<open>FullName\<close> is the directory, a backslash and the name.
\<close>

record file_info =
  directory_name :: string
  base_name :: string
  extension :: string
  last_write_time :: date_time

definition file_name :: "file_info \<Rightarrow> string" where
  "file_name f = base_name f @ extension f"

definition full_name :: "file_info \<Rightarrow> string" where
  "full_name f = directory_name f @ [CHR 0x5C] @ file_name f"

text \<open>
  \<^verbatim>\<open>
  function Get-DateBucket {
    param([System.IO.FileInfo]$File)
    $name = $File.BaseName
    $m1 = [regex]::Match($name, "(20\d{2})[-_](\d{2})[-_](\d{2})")
    if ($m1.Success) {
      return "{0}-{1}-{2}" -f $m1.Groups[1].Value, $m1.Groups[2].Value, $m1.Groups[3].Value
    }
    $m2 = [regex]::Match($name, "(20\d{2})(\d{2})(\d{2})")
    if ($m2.Success) {
      return "{0}-{1}-{2}" -f $m2.Groups[1].Value, $m2.Groups[2].Value, $m2.Groups[3].Value
    }
    return $File.LastWriteTime.ToString("yyyy-MM-dd")
  }
  \<close>
  Both patterns have a fixed length, so a match at a position is a test of the next 10
  (or 8) characters, and \<^verbatim>\<open>[regex]::Match\<close> returns the match at the leftmost position that
  has one.
\<close>

definition is_date_sep :: "char \<Rightarrow> bool" where
  "is_date_sep c \<longleftrightarrow> c = CHR ''-'' \<or> c = CHR ''_''"

definition dashed_date :: "string \<Rightarrow> bool" where
  "dashed_date w \<longleftrightarrow>
     length w = 10 \<and> w ! 0 = CHR ''2'' \<and> w ! 1 = CHR ''0'' \<and> is_digit (w ! 2) \<and> is_digit (w ! 3)
     \<and> is_date_sep (w ! 4) \<and> is_digit (w ! 5) \<and> is_digit (w ! 6)
     \<and> is_date_sep (w ! 7) \<and> is_digit (w ! 8) \<and> is_digit (w ! 9)"

definition compact_date :: "string \<Rightarrow> bool" where
  "compact_date w \<longleftrightarrow>
     length w = 8 \<and> w ! 0 = CHR ''2'' \<and> w ! 1 = CHR ''0'' \<and> is_digit (w ! 2) \<and> is_digit (w ! 3)
     \<and> is_digit (w ! 4) \<and> is_digit (w ! 5) \<and> is_digit (w ! 6) \<and> is_digit (w ! 7)"

definition match_dashed_at :: "string \<Rightarrow> (string \<times> string \<times> string) option" where
  "match_dashed_at s =
     (if dashed_date (take 10 s) then Some (take 4 s, take 2 (drop 5 s), take 2 (drop 8 s))
      else None)"

definition match_compact_at :: "string \<Rightarrow> (string \<times> string \<times> string) option" where
  "match_compact_at s =
     (if compact_date (take 8 s) then Some (take 4 s, take 2 (drop 4 s), take 2 (drop 6 s))
      else None)"

fun regex_match :: "(string \<Rightarrow> 'a option) \<Rightarrow> string \<Rightarrow> 'a option" where
  "regex_match m [] = m []"
| "regex_match m (c # cs) =
     (case m (c # cs) of Some g \<Rightarrow> Some g | None \<Rightarrow> regex_match m cs)"

definition format_groups :: "string \<times> string \<times> string \<Rightarrow> string" where
  "format_groups g = (case g of (y, m, d) \<Rightarrow> y @ ''-'' @ m @ ''-'' @ d)"

definition get_date_bucket :: "file_info \<Rightarrow> string" where
  "get_date_bucket file =
     (let name = base_name file in
      case regex_match match_dashed_at name of
        Some g \<Rightarrow> format_groups g
      | None \<Rightarrow>
          (case regex_match match_compact_at name of
             Some g \<Rightarrow> format_groups g
           | None \<Rightarrow> format_date (last_write_time file)))"

definition dashed_date_at :: "string \<Rightarrow> nat \<Rightarrow> bool" where
  "dashed_date_at s i \<longleftrightarrow> dashed_date (take 10 (drop i s))"

definition compact_date_at :: "string \<Rightarrow> nat \<Rightarrow> bool" where
  "compact_date_at s i \<longleftrightarrow> compact_date (take 8 (drop i s))"

text \<open>The specification's wording of pattern (a): any four-digit year, one kind of separator.\<close>

definition spec_dashed_date :: "string \<Rightarrow> bool" where
  "spec_dashed_date w \<longleftrightarrow>
     length w = 10 \<and> list_all is_digit (take 4 w) \<and> is_date_sep (w ! 4) \<and> list_all is_digit (take 2 (drop 5 w))
     \<and> w ! 7 = w ! 4 \<and> list_all is_digit (drop 8 w)"

subsection \<open>Properties of the date bucket\<close>

lemma regex_match_None_iff:
  "regex_match m s = None \<longleftrightarrow> (\<forall>j\<le>length s. m (drop j s) = None)"
proof (induction s)
  case Nil
  then show ?case by simp
next
  case (Cons c cs)
  have "(\<forall>j\<le>Suc (length cs). m (drop j (c # cs)) = None)
      \<longleftrightarrow> m (c # cs) = None \<and> (\<forall>j\<le>length cs. m (drop j cs) = None)"
    (is "?L \<longleftrightarrow> ?R")
  proof
    assume l: ?L
    then have "m (drop 0 (c # cs)) = None" by blast
    moreover have "m (drop j cs) = None" if "j \<le> length cs" for j
      using l[rule_format, of "Suc j"] that by simp
    ultimately show ?R by simp
  next
    assume r: ?R
    show ?L
    proof (intro allI impI)
      fix j assume "j \<le> Suc (length cs)"
      with r show "m (drop j (c # cs)) = None" by (cases j) auto
    qed
  qed
  with Cons show ?case by (auto split: option.splits)
qed

lemma regex_match_first:
  "i \<le> length s \<Longrightarrow> m (drop i s) = Some g \<Longrightarrow> (\<forall>j<i. m (drop j s) = None)
   \<Longrightarrow> regex_match m s = Some g"
proof (induction s arbitrary: i)
  case Nil
  then show ?case by simp
next
  case (Cons c cs)
  show ?case
  proof (cases i)
    case 0
    with Cons.prems show ?thesis by simp
  next
    case (Suc k)
    with Cons.prems have "m (c # cs) = None"
      by (metis drop0 zero_less_Suc)
    moreover have "regex_match m cs = Some g"
    proof (rule Cons.IH[of k])
      show "k \<le> length cs" using Cons.prems Suc by simp
      show "m (drop k cs) = Some g" using Cons.prems Suc by simp
      show "\<forall>j<k. m (drop j cs) = None"
      proof (intro allI impI)
        fix j assume "j < k"
        then have "m (drop (Suc j) (c # cs)) = None" using Cons.prems(3) Suc by blast
        then show "m (drop j cs) = None" by simp
      qed
    qed
    ultimately show ?thesis by simp
  qed
qed

lemma dashed_date_at_length: "dashed_date_at s i \<Longrightarrow> i + 10 \<le> length s"
  by (auto simp: dashed_date_at_def dashed_date_def)

lemma compact_date_at_length: "compact_date_at s i \<Longrightarrow> i + 8 \<le> length s"
  by (auto simp: compact_date_at_def compact_date_def)

lemma match_dashed_None: "regex_match match_dashed_at s = None \<longleftrightarrow> (\<forall>j. \<not> dashed_date_at s j)"
proof -
  have "regex_match match_dashed_at s = None \<longleftrightarrow> (\<forall>j\<le>length s. \<not> dashed_date_at s j)"
    by (auto simp: regex_match_None_iff match_dashed_at_def dashed_date_at_def)
  also have "\<dots> \<longleftrightarrow> (\<forall>j. \<not> dashed_date_at s j)"
    using dashed_date_at_length[of s] by (meson add_leD1)
  finally show ?thesis .
qed

lemma match_compact_None: "regex_match match_compact_at s = None \<longleftrightarrow> (\<forall>j. \<not> compact_date_at s j)"
proof -
  have "regex_match match_compact_at s = None \<longleftrightarrow> (\<forall>j\<le>length s. \<not> compact_date_at s j)"
    by (auto simp: regex_match_None_iff match_compact_at_def compact_date_at_def)
  also have "\<dots> \<longleftrightarrow> (\<forall>j. \<not> compact_date_at s j)"
    using compact_date_at_length[of s] by (meson add_leD1)
  finally show ?thesis .
qed

lemma match_dashed_first:
  assumes "dashed_date_at s i" and "\<forall>j<i. \<not> dashed_date_at s j"
  shows "regex_match match_dashed_at s
         = Some (take 4 (drop i s), take 2 (drop (i + 5) s), take 2 (drop (i + 8) s))"
proof (rule regex_match_first[of i])
  show "i \<le> length s" using dashed_date_at_length[OF assms(1)] by simp
  show "match_dashed_at (drop i s)
        = Some (take 4 (drop i s), take 2 (drop (i + 5) s), take 2 (drop (i + 8) s))"
    using assms(1) by (simp add: match_dashed_at_def dashed_date_at_def add.commute)
  show "\<forall>j<i. match_dashed_at (drop j s) = None"
    using assms(2) by (simp add: match_dashed_at_def dashed_date_at_def)
qed

lemma match_compact_first:
  assumes "compact_date_at s i" and "\<forall>j<i. \<not> compact_date_at s j"
  shows "regex_match match_compact_at s
         = Some (take 4 (drop i s), take 2 (drop (i + 4) s), take 2 (drop (i + 6) s))"
proof (rule regex_match_first[of i])
  show "i \<le> length s" using compact_date_at_length[OF assms(1)] by simp
  show "match_compact_at (drop i s)
        = Some (take 4 (drop i s), take 2 (drop (i + 4) s), take 2 (drop (i + 6) s))"
    using assms(1) by (simp add: match_compact_at_def compact_date_at_def add.commute)
  show "\<forall>j<i. match_compact_at (drop j s) = None"
    using assms(2) by (simp add: match_compact_at_def compact_date_at_def)
qed

text \<open>
  C6 (amended). The bucket is decided first match wins: (a) the leftmost place of the base
  filename where \<^verbatim>\<open>20YY\<close>, a separator, \<^verbatim>\<open>MM\<close>, a separator and \<^verbatim>\<open>DD\<close> stand (each
  separator a hyphen or an underscore, all of Y, M, D digits) gives \<^verbatim>\<open>20YY-MM-DD\<close>;
  (b) if there is no such place, the leftmost place where the eight characters
  \<^verbatim>\<open>20YYMMDD\<close> stand gives \<^verbatim>\<open>20YY-MM-DD\<close>; (c) if there is none either, the bucket is
  the last-modified date formatted \<^verbatim>\<open>yyyy-MM-dd\<close>.
\<close>

theorem get_date_bucket_priority:
  "(dashed_date_at (base_name f) i \<and> (\<forall>j<i. \<not> dashed_date_at (base_name f) j)
      \<longrightarrow> get_date_bucket f
          = take 4 (drop i (base_name f)) @ ''-'' @ take 2 (drop (i + 5) (base_name f)) @ ''-''
              @ take 2 (drop (i + 8) (base_name f)))
   \<and> ((\<forall>j. \<not> dashed_date_at (base_name f) j) \<and> compact_date_at (base_name f) i
       \<and> (\<forall>j<i. \<not> compact_date_at (base_name f) j)
      \<longrightarrow> get_date_bucket f
          = take 4 (drop i (base_name f)) @ ''-'' @ take 2 (drop (i + 4) (base_name f)) @ ''-''
              @ take 2 (drop (i + 6) (base_name f)))
   \<and> ((\<forall>j. \<not> dashed_date_at (base_name f) j) \<and> (\<forall>j. \<not> compact_date_at (base_name f) j)
      \<longrightarrow> get_date_bucket f = format_date (last_write_time f))"
proof (intro conjI impI)
  assume "dashed_date_at (base_name f) i \<and> (\<forall>j<i. \<not> dashed_date_at (base_name f) j)"
  then show "get_date_bucket f
          = take 4 (drop i (base_name f)) @ ''-'' @ take 2 (drop (i + 5) (base_name f)) @ ''-''
              @ take 2 (drop (i + 8) (base_name f))"
    using match_dashed_first[of "base_name f" i]
    by (simp add: get_date_bucket_def format_groups_def Let_def)
next
  assume "(\<forall>j. \<not> dashed_date_at (base_name f) j) \<and> compact_date_at (base_name f) i
       \<and> (\<forall>j<i. \<not> compact_date_at (base_name f) j)"
  then show "get_date_bucket f
          = take 4 (drop i (base_name f)) @ ''-'' @ take 2 (drop (i + 4) (base_name f)) @ ''-''
              @ take 2 (drop (i + 6) (base_name f))"
    using match_compact_first[of "base_name f" i] match_dashed_None[of "base_name f"]
    by (simp add: get_date_bucket_def format_groups_def Let_def)
next
  assume "(\<forall>j. \<not> dashed_date_at (base_name f) j) \<and> (\<forall>j. \<not> compact_date_at (base_name f) j)"
  then show "get_date_bucket f = format_date (last_write_time f)"
    using match_compact_None[of "base_name f"] match_dashed_None[of "base_name f"]
    by (simp add: get_date_bucket_def Let_def)
qed

definition example_file :: "string \<Rightarrow> file_info" where
  "example_file n =
     \<lparr>directory_name = ''C:'', base_name = n, extension = ''.mp4'',
      last_write_time = \<lparr>year = 2023, month = 7, day = 9\<rparr>\<rparr>"

text \<open>
  The three examples of the specification: pattern (a), pattern (b), and a name with no
  embedded date.
\<close>

theorem get_date_bucket_priority_witness:
  "get_date_bucket (example_file ''2024-03-10_Service'') = ''2024-03-10''
   \<and> get_date_bucket (example_file ''20240310_Service'') = ''2024-03-10''
   \<and> get_date_bucket (example_file ''Easter Service'') = ''2023-07-09''"
proof -
  have d0: "dashed_date_at ''2024-03-10_Service'' 0"
    by (simp add: dashed_date_at_def dashed_date_def is_digit_def is_date_sep_def code_def)
  have nd1: "\<forall>j. \<not> dashed_date_at ''20240310_Service'' j"
    unfolding match_dashed_None[symmetric] by code_simp
  have c1: "compact_date_at ''20240310_Service'' 0"
    by (simp add: compact_date_at_def compact_date_def is_digit_def code_def)
  have nd2: "\<forall>j. \<not> dashed_date_at ''Easter Service'' j"
    unfolding match_dashed_None[symmetric] by code_simp
  have nc2: "\<forall>j. \<not> compact_date_at ''Easter Service'' j"
    unfolding match_compact_None[symmetric] by code_simp
  have fmt: "format_date \<lparr>year = 2023, month = 7, day = 9\<rparr> = ''2023-07-09''"
    by code_simp
  have "get_date_bucket (example_file ''2024-03-10_Service'') = ''2024-03-10''"
    using get_date_bucket_priority[of "example_file ''2024-03-10_Service''" 0] d0
    by (simp add: example_file_def)
  moreover have "get_date_bucket (example_file ''20240310_Service'') = ''2024-03-10''"
    using get_date_bucket_priority[of "example_file ''20240310_Service''" 0] nd1 c1
    by (simp add: example_file_def)
  moreover have "get_date_bucket (example_file ''Easter Service'') = ''2023-07-09''"
    using get_date_bucket_priority[of "example_file ''Easter Service''" 0] nd2 nc2 fmt
    by (simp add: example_file_def)
  ultimately show ?thesis by simp
qed

text \<open>
  C6 as stated fails: a name with the date \<^verbatim>\<open>1999-12-25\<close> is bucketed by its modification
  date, since the year must start with \<^verbatim>\<open>20\<close>; and a name with two different separators,
  which is neither \<^verbatim>\<open>YYYY-MM-DD\<close> nor \<^verbatim>\<open>YYYY_MM_DD\<close>, is bucketed by pattern (a).
\<close>

theorem get_date_bucket_counterexample:
  "spec_dashed_date (take 10 ''1999-12-25_Christmas'')
   \<and> get_date_bucket (example_file ''1999-12-25_Christmas'') = ''2023-07-09''
   \<and> \<not> spec_dashed_date (take 10 ''2024-03_10 Service'')
   \<and> get_date_bucket (example_file ''2024-03_10 Service'') = ''2024-03-10''"
  by code_simp

section \<open>The batch run\<close>

subsection \<open>Parameters, the world outside the script, and the state\<close>

text \<open>The parameters of the script (\<^verbatim>\<open>param(...)\<close>).\<close>

record params =
  input_folder :: string
  output_folder :: string
  model_file :: string
  whisper_exe :: string
  ffmpeg_exe :: string
  force :: bool
  no_recursive :: bool
  limit :: int
  before_date :: string
  threads :: int
  fast_scan :: bool
  keep_audio :: bool
  pause_flag_file :: string

text \<open>
  What the script observes of the world and does not decide itself: whether the pause flag
  is there at its \<open>k\<close>-th look, what each engine does for a file (its exit code and
  which of its output files it leaves behind: ffmpeg writes the path given last on its
  command line, whisper writes \<^verbatim>\<open><base>.txt\<close> and \<^verbatim>\<open><base>.json\<close> for the base given
  after \<^verbatim>\<open>-of\<close>), and the answers of \<^verbatim>\<open>Get-Command\<close>, \<^verbatim>\<open>Resolve-Path\<close>,
  \<^verbatim>\<open>Split-Path -Parent\<close>, \<^verbatim>\<open>Get-ChildItem -File\<close> (with or without \<^verbatim>\<open>-Recurse\<close>) and
  \<^verbatim>\<open>Sort-Object FullName\<close>.
\<close>

record world =
  pause_flag_at :: "nat \<Rightarrow> bool"
  run_ffmpeg :: "file_info \<Rightarrow> int \<times> bool"
  run_whisper :: "file_info \<Rightarrow> int \<times> bool \<times> bool"
  command_exists :: "string \<Rightarrow> bool"
  resolve_path :: "string \<Rightarrow> string"
  split_path_parent :: "string \<Rightarrow> string"
  get_child_item :: "string \<Rightarrow> bool \<Rightarrow> file_info list"
  sort_by_full_name :: "file_info list \<Rightarrow> file_info list"

text \<open>What the script does, in order.\<close>

datatype event =
    Write_Host string
  | Write_Warning string
  | Test_Pause string bool
  | Start_Sleep nat
  | Invoke_Ffmpeg "string list" int
  | Invoke_Whisper "string list" int

text \<open>An entry of \<^verbatim>\<open>$results\<close>.\<close>

record result =
  status :: string
  source :: string
  output_dir :: string
  reason :: "string option"

text \<open>
  The state of a run: the paths that exist (the script's \<^verbatim>\<open>Test-Path\<close> is membership;
  contents are not tracked, and nothing but the script and the engines changes the paths),
  the number of looks at the pause flag so far, the trace, \<^verbatim>\<open>$results\<close> and
  \<^verbatim>\<open>$processed\<close>.
\<close>

record state =
  paths :: "string set"
  polls :: nat
  trace :: "event list"
  results :: "result list"
  processed :: nat

definition say :: "event \<Rightarrow> state \<Rightarrow> state" where
  "say e st = st\<lparr>trace := trace st @ [e]\<rparr>"

text \<open>\<^verbatim>\<open>Join-Path\<close>: one backslash between parent and child.\<close>

definition is_path_sep :: "char \<Rightarrow> bool" where
  "is_path_sep c \<longleftrightarrow> c = CHR 0x5C \<or> c = CHR ''/''"

definition join_path :: "string \<Rightarrow> string \<Rightarrow> string" where
  "join_path parent child =
     rev (dropWhile is_path_sep (rev parent)) @ [CHR 0x5C] @ dropWhile is_path_sep child"

text \<open>
  The comparison \<^verbatim>\<open>-gt\<close> of two strings, character by character. (On the strings compared
  here, digits and hyphens, the culture's order is the order of the codes.)
\<close>

fun string_gt :: "string \<Rightarrow> string \<Rightarrow> bool" where
  "string_gt [] t = False"
| "string_gt (a # s) [] = True"
| "string_gt (a # s) (b # t) = (code a > code b \<or> (a = b \<and> string_gt s t))"

text \<open>
  \<^verbatim>\<open>if (-not (Test-Path -LiteralPath $dir)) { New-Item -ItemType Directory -Path $dir -Force }\<close>
\<close>

definition ensure_directory :: "string \<Rightarrow> state \<Rightarrow> state" where
  "ensure_directory dir st = (if dir \<in> paths st then st else st\<lparr>paths := insert dir (paths st)\<rparr>)"

subsection \<open>Emit-Progress\<close>

text \<open>
  \<^verbatim>\<open>
  function Emit-Progress {
    param([int]$Done, [int]$Total, [string]$Status = "", [string]$Source = "")
    $line = "[progress] done=$Done total=$Total"
    if (-not [string]::IsNullOrWhiteSpace($Status)) { $line += " status=$Status" }
    if (-not [string]::IsNullOrWhiteSpace($Source)) { $line += " source=$Source" }
    Write-Host $line
  }
  \<close>
  The counts are never negative here; they are natural numbers in the model.
\<close>

definition progress_line :: "nat \<Rightarrow> nat \<Rightarrow> string \<Rightarrow> string \<Rightarrow> string" where
  "progress_line n_done n_total status_token src =
     ''[progress] done='' @ show_nat n_done @ '' total='' @ show_nat n_total
       @ (if \<not> is_null_or_white_space status_token then '' status='' @ status_token else '''')
       @ (if \<not> is_null_or_white_space src then '' source='' @ src else '''')"

definition emit_progress :: "nat \<Rightarrow> nat \<Rightarrow> string \<Rightarrow> string \<Rightarrow> state \<Rightarrow> state" where
  "emit_progress n_done n_total status_token src st =
     say (Write_Host (progress_line n_done n_total status_token src)) st"

subsection \<open>Wait-IfPaused\<close>

text \<open>
  \<^verbatim>\<open>
  function Wait-IfPaused {
    param([string]$PauseFlagPath, [string]$Context = "")
    if ([string]::IsNullOrWhiteSpace($PauseFlagPath)) { return }
    $announced = $false
    while (Test-Path -LiteralPath $PauseFlagPath) {
      if (-not $announced) {
        $msg = "[pause] Pause requested. Waiting to resume"
        if (-not [string]::IsNullOrWhiteSpace($Context)) { $msg += " ($Context)" }
        Write-Host $msg
        Write-Host "[pause] Remove pause flag to continue: $PauseFlagPath"
        $announced = $true
      }
      Start-Sleep -Seconds 2
    }
    if ($announced) { Write-Host "[pause] Resume detected. Continuing..." }
  }
  \<close>
  The loop may run forever; then the model's value is \<open>None\<close>.
\<close>

definition pause_notice :: "string \<Rightarrow> string \<Rightarrow> event list" where
  "pause_notice pause_flag_path ctx =
     [Write_Host (''[pause] Pause requested. Waiting to resume''
        @ (if \<not> is_null_or_white_space ctx then '' ('' @ ctx @ '')'' else '''')),
      Write_Host (''[pause] Remove pause flag to continue: '' @ pause_flag_path)]"

definition resume_notice :: event where
  "resume_notice = Write_Host ''[pause] Resume detected. Continuing...''"

partial_function (option) wait_loop ::
  "world \<Rightarrow> string \<Rightarrow> string \<Rightarrow> bool \<Rightarrow> state \<Rightarrow> (bool \<times> state) option" where
  "wait_loop w pause_flag_path ctx announced st =
     (if pause_flag_at w (polls st)
      then wait_loop w pause_flag_path ctx True
             (st\<lparr>polls := Suc (polls st),
                 trace := trace st @ [Test_Pause ctx True]
                   @ (if \<not> announced then pause_notice pause_flag_path ctx else [])
                   @ [Start_Sleep 2]\<rparr>)
      else Some (announced, st\<lparr>polls := Suc (polls st), trace := trace st @ [Test_Pause ctx False]\<rparr>))"

declare wait_loop.simps [code]

definition wait_if_paused :: "world \<Rightarrow> string \<Rightarrow> string \<Rightarrow> state \<Rightarrow> state option" where
  "wait_if_paused w pause_flag_path ctx st =
     (if is_null_or_white_space pause_flag_path then Some st
      else case wait_loop w pause_flag_path ctx False st of
             None \<Rightarrow> None
           | Some (announced, st') \<Rightarrow> Some (if announced then say resume_notice st' else st'))"

subsection \<open>One file of the loop\<close>

text \<open>
  \<^verbatim>\<open>$results.Add(...); $processed += 1; Emit-Progress -Done $processed -Total $totalFiles
  -Status ... -Source $file.FullName\<close>
\<close>

definition record_result :: "result \<Rightarrow> string \<Rightarrow> nat \<Rightarrow> state \<Rightarrow> state" where
  "record_result r status_token n_total st =
     emit_progress (Suc (processed st)) n_total status_token (source r)
       (st\<lparr>results := results st @ [r], processed := Suc (processed st)\<rparr>)"

definition move_item :: "string \<Rightarrow> string \<Rightarrow> state \<Rightarrow> state" where
  "move_item src dst st = st\<lparr>paths := insert dst (paths st - {src})\<rparr>"

definition set_content :: "string \<Rightarrow> state \<Rightarrow> state" where
  "set_content path st = st\<lparr>paths := insert path (paths st)\<rparr>"

definition remove_item :: "string \<Rightarrow> state \<Rightarrow> state" where
  "remove_item path st = st\<lparr>paths := paths st - {path}\<rparr>"

text \<open>
  After both engines succeeded (lines 328 to 375 of the script): the transcript and the
  timestamps are moved into place, the secondary documents and the metadata are written,
  the waveform is removed, and the file is recorded \<^verbatim>\<open>ok\<close>.
\<close>

definition finish_file :: "params \<Rightarrow> nat \<Rightarrow> file_info \<Rightarrow> string \<Rightarrow> state \<Rightarrow> state" where
  "finish_file p n_total file service_dir st =
     (let raw_path = join_path service_dir ''raw.txt'';
          clean_path = join_path service_dir ''clean.md'';
          summary_path = join_path service_dir ''summary.md'';
          timestamps_path = join_path service_dir ''timestamps.json'';
          metadata_path = join_path service_dir ''metadata.json'';
          audio_path = join_path service_dir ''audio-source.wav'';
          base_out = join_path service_dir ''audio-source'';
          raw_candidate = base_out @ ''.txt'';
          json_candidate = base_out @ ''.json'';
          st = (if raw_candidate \<in> paths st then move_item raw_candidate raw_path st else st);
          st = (if json_candidate \<in> paths st then move_item json_candidate timestamps_path st
                else st);
          st = (if \<not> fast_scan p then set_content summary_path (set_content clean_path st)
                else st);
          st = set_content metadata_path st;
          st = (if \<not> keep_audio p \<and> audio_path \<in> paths st then remove_item audio_path st
                else st)
      in record_result
           \<lparr>status = ''ok'', source = full_name file, output_dir = service_dir, reason = None\<rparr>
           ''ok'' n_total st)"

text \<open>
  The recognition engine (lines 313 to 319): its command line, its exit code, and the
  files it leaves.
\<close>

definition whisper_args :: "params \<Rightarrow> string \<Rightarrow> string list" where
  "whisper_args p service_dir =
     [''-m'', model_file p, ''-f'', join_path service_dir ''audio-source.wav'', ''-of'',
      join_path service_dir ''audio-source'', ''-otxt'', ''-oj'']
     @ (if threads p > 0 then [''-t'', show_nat (nat (threads p))] else [])"

definition invoke_whisper :: "params \<Rightarrow> world \<Rightarrow> file_info \<Rightarrow> string \<Rightarrow> state \<Rightarrow> state" where
  "invoke_whisper p w file service_dir st0 =
     (let base_out = join_path service_dir ''audio-source'';
          (exit_code, wrote_txt, wrote_json) = run_whisper w file;
          st = say (Invoke_Whisper (whisper_args p service_dir) exit_code) st0;
          st = (if wrote_txt then set_content (base_out @ ''.txt'') st else st)
      in if wrote_json then set_content (base_out @ ''.json'') st else st)"

text \<open>The error branch of the recognition (lines 320 to 326).\<close>

definition fail_whisper :: "nat \<Rightarrow> file_info \<Rightarrow> string \<Rightarrow> state \<Rightarrow> state" where
  "fail_whisper n_total file service_dir st =
     record_result
       \<lparr>status = ''error'', source = full_name file, output_dir = service_dir,
        reason = Some ''whisper''\<rparr>
       ''error-whisper'' n_total
       (say (Write_Warning (''whisper failed: '' @ full_name file)) st)"

text \<open>The gate, the recognition, and what follows it (lines 318 to 375).\<close>

definition recognize_file ::
  "params \<Rightarrow> world \<Rightarrow> nat \<Rightarrow> file_info \<Rightarrow> string \<Rightarrow> state \<Rightarrow> state option" where
  "recognize_file p w n_total file service_dir st0 =
     (case wait_if_paused w (pause_flag_file p) ''before whisper'' st0 of
        None \<Rightarrow> None
      | Some st \<Rightarrow>
          let st = invoke_whisper p w file service_dir st
          in if fst (run_whisper w file) \<noteq> 0
             then Some (fail_whisper n_total file service_dir st)
             else Some (finish_file p n_total file service_dir st))"

text \<open>The conversion engine (line 304) and its error branch (lines 305 to 311).\<close>

definition ffmpeg_args :: "file_info \<Rightarrow> string \<Rightarrow> string list" where
  "ffmpeg_args file service_dir =
     [''-y'', ''-loglevel'', ''error'', ''-i'', full_name file, ''-vn'', ''-ac'', ''1'',
      ''-ar'', ''16000'', join_path service_dir ''audio-source.wav'']"

definition invoke_ffmpeg :: "world \<Rightarrow> file_info \<Rightarrow> string \<Rightarrow> state \<Rightarrow> state" where
  "invoke_ffmpeg w file service_dir st0 =
     (let (exit_code, wrote_wav) = run_ffmpeg w file;
          st = say (Invoke_Ffmpeg (ffmpeg_args file service_dir) exit_code) st0
      in if wrote_wav then set_content (join_path service_dir ''audio-source.wav'') st else st)"

definition fail_ffmpeg :: "nat \<Rightarrow> file_info \<Rightarrow> string \<Rightarrow> state \<Rightarrow> state" where
  "fail_ffmpeg n_total file service_dir st =
     record_result
       \<lparr>status = ''error'', source = full_name file, output_dir = service_dir,
        reason = Some ''ffmpeg''\<rparr>
       ''error-ffmpeg'' n_total
       (say (Write_Warning (''ffmpeg failed: '' @ full_name file)) st)"

text \<open>The gate, the conversion, and what follows it (lines 303 to 375).\<close>

definition convert_file ::
  "params \<Rightarrow> world \<Rightarrow> nat \<Rightarrow> file_info \<Rightarrow> string \<Rightarrow> state \<Rightarrow> state option" where
  "convert_file p w n_total file service_dir st0 =
     (case wait_if_paused w (pause_flag_file p) ''before ffmpeg'' st0 of
        None \<Rightarrow> None
      | Some st \<Rightarrow>
          let st = invoke_ffmpeg w file service_dir st
          in if fst (run_ffmpeg w file) \<noteq> 0
             then Some (fail_ffmpeg n_total file service_dir st)
             else recognize_file p w n_total file service_dir st)"

text \<open>The output directory (lines 274 to 290) and the idempotence check (lines 292 to 298).\<close>

definition service_dir_of :: "string \<Rightarrow> file_info \<Rightarrow> string" where
  "service_dir_of output_resolved file =
     join_path (join_path output_resolved (get_date_bucket file)) (get_slug (base_name file))"

definition raw_path_of :: "string \<Rightarrow> file_info \<Rightarrow> string" where
  "raw_path_of output_resolved file = join_path (service_dir_of output_resolved file) ''raw.txt''"

definition prepare_directories :: "string \<Rightarrow> file_info \<Rightarrow> state \<Rightarrow> state" where
  "prepare_directories output_resolved file st =
     ensure_directory (service_dir_of output_resolved file)
       (ensure_directory (join_path output_resolved (get_date_bucket file)) st)"

definition skip_existing :: "string \<Rightarrow> nat \<Rightarrow> file_info \<Rightarrow> state \<Rightarrow> state" where
  "skip_existing output_resolved n_total file st =
     record_result
       \<lparr>status = ''skipped'', source = full_name file,
        output_dir = service_dir_of output_resolved file, reason = None\<rparr>
       ''skipped'' n_total (say (Write_Host ''[skip] raw.txt exists'') st)"

definition transcribe_file ::
  "params \<Rightarrow> world \<Rightarrow> string \<Rightarrow> nat \<Rightarrow> file_info \<Rightarrow> state \<Rightarrow> state option" where
  "transcribe_file p w output_resolved n_total file st0 =
     (let st = prepare_directories output_resolved file st0
      in if raw_path_of output_resolved file \<in> paths st \<and> \<not> force p
         then Some (skip_existing output_resolved n_total file st)
         else convert_file p w n_total file (service_dir_of output_resolved file) st)"

text \<open>The first lines of the loop body (lines 260 to 263) and the cutoff filter (265 to 272).\<close>

definition begin_file :: "file_info \<Rightarrow> state \<Rightarrow> state" where
  "begin_file file st =
     say (Write_Host (''=== '' @ full_name file @ '' ==='')) (say (Write_Host []) st)"

definition after_cutoff :: "params \<Rightarrow> file_info \<Rightarrow> bool" where
  "after_cutoff p file \<longleftrightarrow>
     \<not> is_null_or_white_space (before_date p) \<and> string_gt (get_date_bucket file) (before_date p)"

definition skip_by_date :: "params \<Rightarrow> nat \<Rightarrow> file_info \<Rightarrow> state \<Rightarrow> state" where
  "skip_by_date p n_total file st =
     record_result
       \<lparr>status = ''skipped-date'', source = full_name file, output_dir = [], reason = None\<rparr>
       ''skipped-date'' n_total
       (say (Write_Host (''[skip] date '' @ get_date_bucket file @ '' is after cutoff ''
          @ before_date p)) st)"

text \<open>The body of the loop (lines 260 to 375).\<close>

definition process_file ::
  "params \<Rightarrow> world \<Rightarrow> string \<Rightarrow> nat \<Rightarrow> file_info \<Rightarrow> state \<Rightarrow> state option" where
  "process_file p w output_resolved n_total file st0 =
     (case wait_if_paused w (pause_flag_file p) ''before next file'' st0 of
        None \<Rightarrow> None
      | Some st \<Rightarrow>
          let st = begin_file file st
          in if after_cutoff p file
             then Some (skip_by_date p n_total file st)
             else transcribe_file p w output_resolved n_total file st)"


subsection \<open>The script\<close>






text \<open>The pause flag's directory (lines 208 to 214).\<close>

definition prepare_pause_flag :: "params \<Rightarrow> world \<Rightarrow> state \<Rightarrow> state" where
  "prepare_pause_flag p w st =
     (if \<not> is_null_or_white_space (pause_flag_file p)
      then let pause_resolved_dir = split_path_parent w (pause_flag_file p)
           in say (Write_Host (''Pause flag file: '' @ pause_flag_file p))
                (if \<not> is_null_or_white_space pause_resolved_dir \<and> pause_resolved_dir \<notin> paths st
                 then st\<lparr>paths := insert pause_resolved_dir (paths st)\<rparr> else st)
      else st)"

text \<open>What is printed before the loop (lines 244 to 255).\<close>

definition announce_run :: "params \<Rightarrow> nat \<Rightarrow> state \<Rightarrow> state" where
  "announce_run p total_files st0 =
     (let st = say (Write_Host (''Found '' @ show_nat total_files @ '' media files'')) st0;
          st = emit_progress 0 total_files ''start'' [] st;
          st = (if \<not> is_null_or_white_space (before_date p)
                then say (Write_Host (''Date filter: only files with inferred date <= ''
                       @ before_date p)) st
                else st);
          st = (if threads p > 0
                then say (Write_Host (''Whisper threads per job: '' @ show_nat (nat (threads p)))) st
                else st)
      in if fast_scan p
         then say (Write_Host ''FastScan: skipping clean.md and summary.md generation'') st
         else st)"




definition example_params :: params where
  "example_params =
     \<lparr>input_folder = ''C:/in'', output_folder = ''C:/out'', model_file = ''C:/model.bin'',
      whisper_exe = ''whisper-cli.exe'', ffmpeg_exe = ''ffmpeg.exe'', force = False,
      no_recursive = False, limit = 0, before_date = [], threads = 0, fast_scan = False,
      keep_audio = False, pause_flag_file = []\<rparr>"

definition example_world :: "file_info list \<Rightarrow> world" where
  "example_world files =
     \<lparr>pause_flag_at = (\<lambda>k. k < 2),
      run_ffmpeg = (\<lambda>f. if base_name f = ''broken'' then (1, False) else (0, True)),
      run_whisper = (\<lambda>f. if base_name f = ''silent'' then (3, True, False) else (0, True, True)),
      command_exists = (\<lambda>c. True),
      resolve_path = (\<lambda>s. s),
      split_path_parent = (\<lambda>s. ''C:/flags''),
      get_child_item = (\<lambda>d r. files),
      sort_by_full_name = (\<lambda>fs. fs)\<rparr>"


subsection \<open>What each step changes\<close>

named_theorems proj

lemma say_proj [proj]:
  "trace (say e st) = trace st @ [e]" "paths (say e st) = paths st" "polls (say e st) = polls st"
  "results (say e st) = results st" "processed (say e st) = processed st"
  by (simp_all add: say_def)

lemma emit_progress_proj [proj]:
  "trace (emit_progress d n tok src st) = trace st @ [Write_Host (progress_line d n tok src)]"
  "paths (emit_progress d n tok src st) = paths st"
  "polls (emit_progress d n tok src st) = polls st"
  "results (emit_progress d n tok src st) = results st"
  "processed (emit_progress d n tok src st) = processed st"
  by (simp_all add: emit_progress_def say_def)

lemma ensure_directory_proj [proj]:
  "trace (ensure_directory d st) = trace st" "paths (ensure_directory d st) = insert d (paths st)"
  "polls (ensure_directory d st) = polls st" "results (ensure_directory d st) = results st"
  "processed (ensure_directory d st) = processed st"
  by (auto simp: ensure_directory_def)

lemma set_content_proj [proj]:
  "trace (set_content d st) = trace st" "paths (set_content d st) = insert d (paths st)"
  "polls (set_content d st) = polls st" "results (set_content d st) = results st"
  "processed (set_content d st) = processed st"
  by (simp_all add: set_content_def)

lemma move_item_proj [proj]:
  "trace (move_item a b st) = trace st" "paths (move_item a b st) = insert b (paths st - {a})"
  "polls (move_item a b st) = polls st" "results (move_item a b st) = results st"
  "processed (move_item a b st) = processed st"
  by (simp_all add: move_item_def)

lemma remove_item_proj [proj]:
  "trace (remove_item a st) = trace st" "paths (remove_item a st) = paths st - {a}"
  "polls (remove_item a st) = polls st" "results (remove_item a st) = results st"
  "processed (remove_item a st) = processed st"
  by (simp_all add: remove_item_def)

lemma record_result_proj [proj]:
  "trace (record_result r tok n st)
     = trace st @ [Write_Host (progress_line (Suc (processed st)) n tok (source r))]"
  "paths (record_result r tok n st) = paths st"
  "polls (record_result r tok n st) = polls st"
  "results (record_result r tok n st) = results st @ [r]"
  "processed (record_result r tok n st) = Suc (processed st)"
  by (simp_all add: record_result_def emit_progress_def say_def)



subsection \<open>The gate\<close>

text \<open>
  The events of the loop of the gate when the flag is there at the next \<open>n\<close> looks and
  gone at the look after them.
\<close>

fun loop_events :: "string \<Rightarrow> string \<Rightarrow> bool \<Rightarrow> nat \<Rightarrow> event list" where
  "loop_events path ctx announced 0 = [Test_Pause ctx False]"
| "loop_events path ctx announced (Suc n) =
     [Test_Pause ctx True] @ (if \<not> announced then pause_notice path ctx else [])
       @ [Start_Sleep 2] @ loop_events path ctx True n"

text \<open>
  What the gate is to do when the flag is found \<open>n\<close> times: nothing but the one look when
  \<open>n = 0\<close>; otherwise the notice after the first look, one sleep of two seconds after
  every look that finds the flag, and the resume notice after the look that does not.
\<close>

definition gate_trace :: "string \<Rightarrow> string \<Rightarrow> nat \<Rightarrow> event list" where
  "gate_trace path ctx n =
     (if n = 0 then [Test_Pause ctx False]
      else [Test_Pause ctx True] @ pause_notice path ctx @ [Start_Sleep 2]
           @ concat (replicate (n - 1) [Test_Pause ctx True, Start_Sleep 2])
           @ [Test_Pause ctx False, resume_notice])"

lemma loop_events_announced:
  "loop_events path ctx True n
     = concat (replicate n [Test_Pause ctx True, Start_Sleep 2]) @ [Test_Pause ctx False]"
  by (induction n) simp_all

lemma wait_loop_clear:
  "(\<forall>j<n. pause_flag_at w (polls st + j)) \<Longrightarrow> \<not> pause_flag_at w (polls st + n) \<Longrightarrow>
   wait_loop w path ctx a st
     = Some (a \<or> 0 < n,
             st\<lparr>polls := polls st + Suc n, trace := trace st @ loop_events path ctx a n\<rparr>)"
proof (induction n arbitrary: st a)
  case 0
  then show ?case by (subst wait_loop.simps) simp
next
  case (Suc n)
  let ?st = "st\<lparr>polls := Suc (polls st),
                  trace := trace st @ [Test_Pause ctx True]
                    @ (if \<not> a then pause_notice path ctx else []) @ [Start_Sleep 2]\<rparr>"
  from Suc.prems(1) have now: "pause_flag_at w (polls st)"
    by (metis add.right_neutral zero_less_Suc)
  have later: "\<forall>j<n. pause_flag_at w (polls ?st + j)"
  proof (intro allI impI)
    fix j assume "j < n"
    then have "Suc j < Suc n" by simp
    then have "pause_flag_at w (polls st + Suc j)" using Suc.prems(1) by blast
    then show "pause_flag_at w (polls ?st + j)" by simp
  qed
  have gone: "\<not> pause_flag_at w (polls ?st + n)" using Suc.prems(2) by simp
  have "wait_loop w path ctx a st = wait_loop w path ctx True ?st"
    using now by (subst wait_loop.simps) simp
  also have "\<dots> = Some (True \<or> 0 < n,
      ?st\<lparr>polls := polls ?st + Suc n, trace := trace ?st @ loop_events path ctx True n\<rparr>)"
    by (rule Suc.IH[OF later gone])
  finally show ?case by simp
qed

lemma wait_loop_Some:
  assumes "wait_loop w path ctx a st = Some y"
  shows "\<exists>n. (\<forall>j<n. pause_flag_at w (polls st + j)) \<and> \<not> pause_flag_at w (polls st + n)"
proof (rule wait_loop.raw_induct
    [where P = "\<lambda>w path ctx a st y.
       \<exists>n. (\<forall>j<n. pause_flag_at w (polls st + j)) \<and> \<not> pause_flag_at w (polls st + n)"])
  show "wait_loop w path ctx a st = Some y" by (rule assms)
next
  fix loop w path ctx a st y
  assume IH: "\<And>w path ctx a st y. loop w path ctx a st = Some y \<Longrightarrow>
      \<exists>n. (\<forall>j<n. pause_flag_at w (polls st + j)) \<and> \<not> pause_flag_at w (polls st + n)"
    and body: "(if pause_flag_at w (polls st)
      then loop w path ctx True
            (st\<lparr>polls := Suc (polls st),
                  trace := trace st @ [Test_Pause ctx True]
                    @ (if \<not> a then pause_notice path ctx else []) @ [Start_Sleep 2]\<rparr>)
      else Some (a, st\<lparr>polls := Suc (polls st), trace := trace st @ [Test_Pause ctx False]\<rparr>))
     = Some y"
  show "\<exists>n. (\<forall>j<n. pause_flag_at w (polls st + j)) \<and> \<not> pause_flag_at w (polls st + n)"
  proof (cases "pause_flag_at w (polls st)")
    case False
    then have "(\<forall>j<0. pause_flag_at w (polls st + j)) \<and> \<not> pause_flag_at w (polls st + 0)"
      by simp
    then show ?thesis by (rule exI)
  next
    case True
    let ?st = "st\<lparr>polls := Suc (polls st),
                    trace := trace st @ [Test_Pause ctx True]
                      @ (if \<not> a then pause_notice path ctx else []) @ [Start_Sleep 2]\<rparr>"
    from body True have "loop w path ctx True ?st = Some y"
      by (simp only: if_True)
    from IH[OF this]
    have "\<exists>n. (\<forall>j<n. pause_flag_at w (Suc (polls st) + j))
        \<and> \<not> pause_flag_at w (Suc (polls st) + n)"
      by simp
    then obtain n where n: "\<forall>j<n. pause_flag_at w (Suc (polls st) + j)"
      "\<not> pause_flag_at w (Suc (polls st) + n)"
      by (elim exE conjE)
    have "\<forall>j<Suc n. pause_flag_at w (polls st + j)"
    proof (intro allI impI)
      fix j assume "j < Suc n"
      then show "pause_flag_at w (polls st + j)"
        using True n(1) by (cases j) auto
    qed
    moreover have "\<not> pause_flag_at w (polls st + Suc n)" using n(2) by simp
    ultimately have "(\<forall>j<Suc n. pause_flag_at w (polls st + j))
        \<and> \<not> pause_flag_at w (polls st + Suc n)" by (rule conjI)
    then show ?thesis by (rule exI)
  qed
qed

lemma wait_loop_blocked:
  "(\<forall>j. pause_flag_at w (polls st + j)) \<Longrightarrow> wait_loop w path ctx a st = None"
  using wait_loop_Some[of w path ctx a st] by (cases "wait_loop w path ctx a st") auto

lemma wait_if_paused_clear:
  assumes "\<not> is_null_or_white_space path"
    and "\<forall>j<n. pause_flag_at w (polls st + j)" and "\<not> pause_flag_at w (polls st + n)"
  shows "wait_if_paused w path ctx st
     = Some (st\<lparr>polls := polls st + Suc n, trace := trace st @ gate_trace path ctx n\<rparr>)"
proof (cases n)
  case 0
  with assms show ?thesis
    using wait_loop_clear[of 0 w st path ctx False]
    by (simp add: wait_if_paused_def gate_trace_def)
next
  case (Suc m)
  with assms show ?thesis
    using wait_loop_clear[of n w st path ctx False]
    by (simp add: wait_if_paused_def gate_trace_def say_def loop_events_announced)
qed

lemma wait_if_paused_blocked:
  "\<not> is_null_or_white_space path \<Longrightarrow> (\<forall>j. pause_flag_at w (polls st + j)) \<Longrightarrow>
   wait_if_paused w path ctx st = None"
  by (simp add: wait_if_paused_def wait_loop_blocked)

text \<open>A complete trace of the gate: empty without a pause flag.\<close>

definition gate_closed :: "string \<Rightarrow> string \<Rightarrow> event list \<Rightarrow> bool" where
  "gate_closed path ctx g \<longleftrightarrow>
     (if is_null_or_white_space path then g = [] else \<exists>n. g = gate_trace path ctx n)"

definition gated :: "event list \<Rightarrow> nat \<Rightarrow> state \<Rightarrow> state" where
  "gated g k st = st\<lparr>polls := k, trace := trace st @ g\<rparr>"

lemma gated_proj [proj]:
  "trace (gated g k st) = trace st @ g" "paths (gated g k st) = paths st"
  "polls (gated g k st) = k" "results (gated g k st) = results st"
  "processed (gated g k st) = processed st"
  by (simp_all add: gated_def)

lemma wait_if_paused_Some:
  assumes "wait_if_paused w path ctx st = Some st'"
  shows "\<exists>g k. gate_closed path ctx g \<and> st' = gated g k st"
proof (cases "is_null_or_white_space path")
  case True
  with assms have "st' = gated [] (polls st) st"
    by (simp add: wait_if_paused_def gated_def)
  with True show ?thesis unfolding gate_closed_def by auto
next
  case False
  with assms obtain y where "wait_loop w path ctx False st = Some y"
    by (auto simp: wait_if_paused_def split: option.splits)
  from wait_loop_Some[OF this] obtain n where
    n: "\<forall>j<n. pause_flag_at w (polls st + j)" "\<not> pause_flag_at w (polls st + n)" by blast
  from wait_if_paused_clear[OF False n] assms
  have "st' = gated (gate_trace path ctx n) (polls st + Suc n) st"
    by (simp add: gated_def)
  with False show ?thesis unfolding gate_closed_def by auto
qed

subsection \<open>One file: what each step changes\<close>

lemma begin_file_proj [proj]:
  "trace (begin_file f st) = trace st @ [Write_Host [], Write_Host (''=== '' @ full_name f @ '' ==='')]"
  "paths (begin_file f st) = paths st" "results (begin_file f st) = results st"
  "processed (begin_file f st) = processed st"
  by (simp_all add: begin_file_def proj)

lemma skip_by_date_proj [proj]:
  "trace (skip_by_date p n f st) = trace st @
     [Write_Host (''[skip] date '' @ get_date_bucket f @ '' is after cutoff '' @ before_date p),
      Write_Host (progress_line (Suc (processed st)) n ''skipped-date'' (full_name f))]"
  "paths (skip_by_date p n f st) = paths st"
  "results (skip_by_date p n f st) = results st @
     [\<lparr>status = ''skipped-date'', source = full_name f, output_dir = [], reason = None\<rparr>]"
  "processed (skip_by_date p n f st) = Suc (processed st)"
  by (simp_all add: skip_by_date_def proj)

lemma prepare_directories_proj [proj]:
  "trace (prepare_directories out f st) = trace st"
  "paths (prepare_directories out f st)
     = insert (service_dir_of out f) (insert (join_path out (get_date_bucket f)) (paths st))"
  "results (prepare_directories out f st) = results st"
  "processed (prepare_directories out f st) = processed st"
  by (simp_all add: prepare_directories_def proj)

lemma skip_existing_proj [proj]:
  "trace (skip_existing out n f st) = trace st @
     [Write_Host ''[skip] raw.txt exists'',
      Write_Host (progress_line (Suc (processed st)) n ''skipped'' (full_name f))]"
  "paths (skip_existing out n f st) = paths st"
  "results (skip_existing out n f st) = results st @
     [\<lparr>status = ''skipped'', source = full_name f, output_dir = service_dir_of out f,
       reason = None\<rparr>]"
  "processed (skip_existing out n f st) = Suc (processed st)"
  by (simp_all add: skip_existing_def proj)

lemma invoke_ffmpeg_proj [proj]:
  "trace (invoke_ffmpeg w f sd st)
     = trace st @ [Invoke_Ffmpeg (ffmpeg_args f sd) (fst (run_ffmpeg w f))]"
  "paths (invoke_ffmpeg w f sd st)
     = paths st \<union> (if snd (run_ffmpeg w f) then {join_path sd ''audio-source.wav''} else {})"
  "results (invoke_ffmpeg w f sd st) = results st"
  "processed (invoke_ffmpeg w f sd st) = processed st"
  by (simp_all add: invoke_ffmpeg_def proj Let_def split: prod.splits)

lemma fail_ffmpeg_proj [proj]:
  "trace (fail_ffmpeg n f sd st) = trace st @
     [Write_Warning (''ffmpeg failed: '' @ full_name f),
      Write_Host (progress_line (Suc (processed st)) n ''error-ffmpeg'' (full_name f))]"
  "paths (fail_ffmpeg n f sd st) = paths st"
  "results (fail_ffmpeg n f sd st) = results st @
     [\<lparr>status = ''error'', source = full_name f, output_dir = sd, reason = Some ''ffmpeg''\<rparr>]"
  "processed (fail_ffmpeg n f sd st) = Suc (processed st)"
  by (simp_all add: fail_ffmpeg_def proj)

lemma invoke_whisper_proj [proj]:
  "trace (invoke_whisper p w f sd st)
     = trace st @ [Invoke_Whisper (whisper_args p sd) (fst (run_whisper w f))]"
  "paths (invoke_whisper p w f sd st)
     = paths st
       \<union> (if fst (snd (run_whisper w f)) then {join_path sd ''audio-source'' @ ''.txt''} else {})
       \<union> (if snd (snd (run_whisper w f)) then {join_path sd ''audio-source'' @ ''.json''} else {})"
  "results (invoke_whisper p w f sd st) = results st"
  "processed (invoke_whisper p w f sd st) = processed st"
  by (simp_all add: invoke_whisper_def proj Let_def split: prod.splits)

lemma fail_whisper_proj [proj]:
  "trace (fail_whisper n f sd st) = trace st @
     [Write_Warning (''whisper failed: '' @ full_name f),
      Write_Host (progress_line (Suc (processed st)) n ''error-whisper'' (full_name f))]"
  "paths (fail_whisper n f sd st) = paths st"
  "results (fail_whisper n f sd st) = results st @
     [\<lparr>status = ''error'', source = full_name f, output_dir = sd, reason = Some ''whisper''\<rparr>]"
  "processed (fail_whisper n f sd st) = Suc (processed st)"
  by (simp_all add: fail_whisper_def proj)

lemma finish_file_proj [proj]:
  "trace (finish_file p n f sd st)
     = trace st @ [Write_Host (progress_line (Suc (processed st)) n ''ok'' (full_name f))]"
  "results (finish_file p n f sd st) = results st @
     [\<lparr>status = ''ok'', source = full_name f, output_dir = sd, reason = None\<rparr>]"
  "processed (finish_file p n f sd st) = Suc (processed st)"
  by (simp_all add: finish_file_def proj Let_def)

subsection \<open>One file: the five ways through the loop body\<close>

lemma recognize_file_cases:
  assumes "recognize_file p w n f sd st = Some st'"
  obtains g3 k3 where "gate_closed (pause_flag_file p) ''before whisper'' g3"
    and "st' = (if fst (run_whisper w f) \<noteq> 0
                then fail_whisper n f sd (invoke_whisper p w f sd (gated g3 k3 st))
                else finish_file p n f sd (invoke_whisper p w f sd (gated g3 k3 st)))"
proof -
  from assms obtain st1 where
    g: "wait_if_paused w (pause_flag_file p) ''before whisper'' st = Some st1"
    by (auto simp: recognize_file_def split: option.splits)
  from wait_if_paused_Some[OF g] obtain g3 k3 where
    c: "gate_closed (pause_flag_file p) ''before whisper'' g3" and s: "st1 = gated g3 k3 st"
    by (elim exE conjE)
  from assms g s
  have "st' = (if fst (run_whisper w f) \<noteq> 0
                then fail_whisper n f sd (invoke_whisper p w f sd (gated g3 k3 st))
                else finish_file p n f sd (invoke_whisper p w f sd (gated g3 k3 st)))"
    by (simp add: recognize_file_def Let_def split: if_splits)
  with c show thesis by (rule that)
qed

lemma convert_file_cases:
  assumes "convert_file p w n f sd st = Some st'"
  obtains (conv_failed) g2 k2 where
      "gate_closed (pause_flag_file p) ''before ffmpeg'' g2"
      "fst (run_ffmpeg w f) \<noteq> 0"
      "st' = fail_ffmpeg n f sd (invoke_ffmpeg w f sd (gated g2 k2 st))"
  | (conv_done) g2 k2 where
      "gate_closed (pause_flag_file p) ''before ffmpeg'' g2"
      "fst (run_ffmpeg w f) = 0"
      "recognize_file p w n f sd (invoke_ffmpeg w f sd (gated g2 k2 st)) = Some st'"
proof -
  from assms obtain st1 where
    g: "wait_if_paused w (pause_flag_file p) ''before ffmpeg'' st = Some st1"
    by (auto simp: convert_file_def split: option.splits)
  from wait_if_paused_Some[OF g] obtain g2 k2 where
    c: "gate_closed (pause_flag_file p) ''before ffmpeg'' g2" and s: "st1 = gated g2 k2 st"
    by (elim exE conjE)
  show thesis
  proof (cases "fst (run_ffmpeg w f) = 0")
    case True
    with assms g s
    have "recognize_file p w n f sd (invoke_ffmpeg w f sd (gated g2 k2 st)) = Some st'"
      by (simp add: convert_file_def Let_def)
    with c True show thesis by (rule conv_done)
  next
    case False
    with assms g s have "st' = fail_ffmpeg n f sd (invoke_ffmpeg w f sd (gated g2 k2 st))"
      by (simp add: convert_file_def Let_def)
    with c False show thesis by (rule conv_failed)
  qed
qed

text \<open>
  Every completed pass through the loop body is one of five: cut off by date, skipped for
  its transcript, failed in the conversion, failed in the recognition, or done. The gates
  contribute the traces \<open>g1\<close>, \<open>g2\<close> and \<open>g3\<close>.
\<close>

lemma process_file_cases [consumes 1, case_names by_date existing ffmpeg_failed whisper_failed ok]:
  assumes "process_file p w out n f st = Some st'"
  obtains
    (by_date) g1 k1 where
      "gate_closed (pause_flag_file p) ''before next file'' g1"
      "after_cutoff p f"
      "st' = skip_by_date p n f (begin_file f (gated g1 k1 st))"
  | (existing) g1 k1 where
      "gate_closed (pause_flag_file p) ''before next file'' g1"
      "\<not> after_cutoff p f"
      "raw_path_of out f \<in> paths (prepare_directories out f st)" "\<not> force p"
      "st' = skip_existing out n f (prepare_directories out f (begin_file f (gated g1 k1 st)))"
  | (ffmpeg_failed) g1 k1 g2 k2 where
      "gate_closed (pause_flag_file p) ''before next file'' g1"
      "gate_closed (pause_flag_file p) ''before ffmpeg'' g2"
      "\<not> after_cutoff p f"
      "\<not> (raw_path_of out f \<in> paths (prepare_directories out f st) \<and> \<not> force p)"
      "fst (run_ffmpeg w f) \<noteq> 0"
      "st' = fail_ffmpeg n f (service_dir_of out f)
               (invoke_ffmpeg w f (service_dir_of out f)
                 (gated g2 k2 (prepare_directories out f (begin_file f (gated g1 k1 st)))))"
  | (whisper_failed) g1 k1 g2 k2 g3 k3 where
      "gate_closed (pause_flag_file p) ''before next file'' g1"
      "gate_closed (pause_flag_file p) ''before ffmpeg'' g2"
      "gate_closed (pause_flag_file p) ''before whisper'' g3"
      "\<not> after_cutoff p f"
      "\<not> (raw_path_of out f \<in> paths (prepare_directories out f st) \<and> \<not> force p)"
      "fst (run_ffmpeg w f) = 0" "fst (run_whisper w f) \<noteq> 0"
      "st' = fail_whisper n f (service_dir_of out f)
               (invoke_whisper p w f (service_dir_of out f)
                 (gated g3 k3
                   (invoke_ffmpeg w f (service_dir_of out f)
                     (gated g2 k2 (prepare_directories out f (begin_file f (gated g1 k1 st)))))))"
  | (ok) g1 k1 g2 k2 g3 k3 where
      "gate_closed (pause_flag_file p) ''before next file'' g1"
      "gate_closed (pause_flag_file p) ''before ffmpeg'' g2"
      "gate_closed (pause_flag_file p) ''before whisper'' g3"
      "\<not> after_cutoff p f"
      "\<not> (raw_path_of out f \<in> paths (prepare_directories out f st) \<and> \<not> force p)"
      "fst (run_ffmpeg w f) = 0" "fst (run_whisper w f) = 0"
      "st' = finish_file p n f (service_dir_of out f)
               (invoke_whisper p w f (service_dir_of out f)
                 (gated g3 k3
                   (invoke_ffmpeg w f (service_dir_of out f)
                     (gated g2 k2 (prepare_directories out f (begin_file f (gated g1 k1 st)))))))"
proof -
  from assms obtain st1 where
    g: "wait_if_paused w (pause_flag_file p) ''before next file'' st = Some st1"
    by (auto simp: process_file_def split: option.splits)
  from wait_if_paused_Some[OF g] obtain g1 k1 where
    c1: "gate_closed (pause_flag_file p) ''before next file'' g1" and s1: "st1 = gated g1 k1 st"
    by (elim exE conjE)
  define sb where "sb = begin_file f (gated g1 k1 st)"
  define sp where "sp = prepare_directories out f sb"
  have paths_sp: "paths sp = paths (prepare_directories out f st)"
    by (simp add: sp_def sb_def proj)
  show thesis
  proof (cases "after_cutoff p f")
    case True
    with assms g s1 have "st' = skip_by_date p n f (begin_file f (gated g1 k1 st))"
      by (simp add: process_file_def Let_def)
    with c1 True show thesis by (rule by_date)
  next
    case False
    with assms g s1 have tr: "transcribe_file p w out n f sb = Some st'"
      by (simp add: process_file_def Let_def sb_def)
    show thesis
    proof (cases "raw_path_of out f \<in> paths sp \<and> \<not> force p")
      case True
      with tr have "st' = skip_existing out n f sp"
        by (simp add: transcribe_file_def Let_def sp_def)
      then have "st' = skip_existing out n f
          (prepare_directories out f (begin_file f (gated g1 k1 st)))"
        by (simp add: sp_def sb_def)
      with c1 False True paths_sp show thesis by (intro existing) simp_all
    next
      case nraw: False
      with tr have cv: "convert_file p w n f (service_dir_of out f) sp = Some st'"
        by (auto simp: transcribe_file_def Let_def sp_def split: if_splits)
      from nraw paths_sp
      have nraw': "\<not> (raw_path_of out f \<in> paths (prepare_directories out f st) \<and> \<not> force p)"
        by simp
      from cv show thesis
      proof (cases rule: convert_file_cases)
        case (conv_failed g2 k2)
        from conv_failed(3) have "st' = fail_ffmpeg n f (service_dir_of out f)
               (invoke_ffmpeg w f (service_dir_of out f)
                 (gated g2 k2 (prepare_directories out f (begin_file f (gated g1 k1 st)))))"
          by (simp add: sp_def sb_def)
        with c1 conv_failed(1) False nraw' conv_failed(2) show thesis
          by (rule ffmpeg_failed)
      next
        case (conv_done g2 k2)
        from conv_done(3) show thesis
        proof (cases rule: recognize_file_cases)
          case (1 g3 k3)
          show thesis
          proof (cases "fst (run_whisper w f) = 0")
            case True
            with 1(2) have "st' = finish_file p n f (service_dir_of out f)
               (invoke_whisper p w f (service_dir_of out f)
                 (gated g3 k3
                   (invoke_ffmpeg w f (service_dir_of out f)
                     (gated g2 k2 (prepare_directories out f (begin_file f (gated g1 k1 st)))))))"
              by (simp add: sp_def sb_def)
            with c1 conv_done(1) 1(1) False nraw' conv_done(2) True show thesis
              by (rule ok)
          next
            case wf: False
            with 1(2) have "st' = fail_whisper n f (service_dir_of out f)
               (invoke_whisper p w f (service_dir_of out f)
                 (gated g3 k3
                   (invoke_ffmpeg w f (service_dir_of out f)
                     (gated g2 k2 (prepare_directories out f (begin_file f (gated g1 k1 st)))))))"
              by (simp add: sp_def sb_def)
            with c1 conv_done(1) 1(1) False nraw' conv_done(2) wf show thesis
              by (rule whisper_failed)
          qed
        qed
      qed
    qed
  qed
qed

subsection \<open>Progress lines in a trace\<close>

text \<open>A line of the output that starts with \<^verbatim>\<open>[progress]\<close>.\<close>

definition is_progress_line :: "string \<Rightarrow> bool" where
  "is_progress_line l \<longleftrightarrow> take 10 l = ''[progress]''"

fun progress_of :: "event \<Rightarrow> string list" where
  "progress_of (Write_Host l) = (if is_progress_line l then [l] else [])"
| "progress_of e = []"

definition progress_lines :: "event list \<Rightarrow> string list" where
  "progress_lines evs = concat (map progress_of evs)"

text \<open>The status token of a progress line, from the entry of \<^verbatim>\<open>$results\<close>.\<close>

definition status_token :: "result \<Rightarrow> string" where
  "status_token r = status r @ (case reason r of None \<Rightarrow> [] | Some x \<Rightarrow> ''-'' @ x)"

text \<open>The entries the loop can record.\<close>

definition recorded :: "result \<Rightarrow> bool" where
  "recorded r \<longleftrightarrow>
     (status r, reason r) \<in> {(''ok'', None), (''skipped'', None), (''skipped-date'', None),
       (''error'', Some ''ffmpeg''), (''error'', Some ''whisper'')}"

lemma progress_lines_simps [simp]:
  "progress_lines [] = []"
  "progress_lines (e # evs) = progress_of e @ progress_lines evs"
  "progress_lines (xs @ ys) = progress_lines xs @ progress_lines ys"
  by (simp_all add: progress_lines_def)

lemma is_progress_line_progress_line [simp]: "is_progress_line (progress_line d n tok src)"
  by (simp add: is_progress_line_def progress_line_def)

text \<open>The events a gate can produce.\<close>

definition gate_alphabet :: "string \<Rightarrow> string \<Rightarrow> event set" where
  "gate_alphabet path ctx =
     {Test_Pause ctx True, Test_Pause ctx False, Start_Sleep 2, resume_notice}
     \<union> set (pause_notice path ctx)"

lemma set_concat_replicate: "set (concat (replicate k xs)) \<subseteq> set xs"
  by (induction k) auto

lemma gate_trace_alphabet: "set (gate_trace path ctx n) \<subseteq> gate_alphabet path ctx"
  using set_concat_replicate[of "n - 1" "[Test_Pause ctx True, Start_Sleep 2]"]
  by (auto simp: gate_trace_def gate_alphabet_def)

lemma gate_closed_alphabet: "gate_closed path ctx g \<Longrightarrow> set g \<subseteq> gate_alphabet path ctx"
  using gate_trace_alphabet by (auto simp: gate_closed_def split: if_splits)

lemma progress_lines_none: "(\<forall>e\<in>set evs. progress_of e = []) \<Longrightarrow> progress_lines evs = []"
  by (induction evs) simp_all

lemma gate_alphabet_progress: "e \<in> gate_alphabet path ctx \<Longrightarrow> progress_of e = []"
  by (auto simp: gate_alphabet_def pause_notice_def resume_notice_def is_progress_line_def)

lemma gate_closed_progress [simp]: "gate_closed path ctx g \<Longrightarrow> progress_lines g = []"
  using gate_closed_alphabet[of path ctx g] gate_alphabet_progress
  by (intro progress_lines_none) blast

lemma gate_closed_no_engine:
  "gate_closed path ctx g \<Longrightarrow> Invoke_Ffmpeg args c \<notin> set g \<and> Invoke_Whisper args c \<notin> set g"
  using gate_closed_alphabet[of path ctx g]
  by (auto simp: gate_alphabet_def pause_notice_def resume_notice_def)

lemma gate_closed_polls: "gate_closed path ctx g \<Longrightarrow> Test_Pause c b \<in> set g \<Longrightarrow> c = ctx"
  using gate_closed_alphabet[of path ctx g]
  by (auto simp: gate_alphabet_def pause_notice_def resume_notice_def)

lemma is_progress_line_tests:
  "\<not> is_progress_line []"
  "is_progress_line (c # l) \<longleftrightarrow> c = CHR ''['' \<and> take 9 l = ''progress]''"
  by (simp_all add: is_progress_line_def)

text \<open>What a step added to the trace, and the entry it added to \<^verbatim>\<open>$results\<close>.\<close>

definition new_events :: "state \<Rightarrow> state \<Rightarrow> event list" where
  "new_events st st' = drop (length (trace st)) (trace st')"

definition new_result :: "state \<Rightarrow> result" where
  "new_result st' = last (results st')"

lemma new_events_append [simp]: "trace st' = trace st @ evs \<Longrightarrow> new_events st st' = evs"
  by (simp add: new_events_def)

text \<open>
  One pass through the loop body adds one entry to \<^verbatim>\<open>$results\<close>, for this file, and one
  progress line, with the count, the total, the token of the entry and the file's path.
\<close>

lemma process_file_progress:
  assumes "process_file p w out n f st = Some st'"
  shows "trace st' = trace st @ new_events st st'
    \<and> results st' = results st @ [new_result st']
    \<and> processed st' = Suc (processed st)
    \<and> source (new_result st') = full_name f
    \<and> recorded (new_result st')
    \<and> progress_lines (new_events st st')
         = [progress_line (Suc (processed st)) n (status_token (new_result st')) (full_name f)]"
  using assms
proof (cases rule: process_file_cases)
  case (by_date g1 k1)
  then show ?thesis
    by (simp add: proj status_token_def recorded_def new_result_def new_events_def
        is_progress_line_tests)
next
  case (existing g1 k1)
  then show ?thesis
    by (simp add: proj status_token_def recorded_def new_result_def new_events_def
        is_progress_line_tests)
next
  case (ffmpeg_failed g1 k1 g2 k2)
  then show ?thesis
    by (simp add: proj status_token_def recorded_def new_result_def new_events_def
        is_progress_line_tests)
next
  case (whisper_failed g1 k1 g2 k2 g3 k3)
  then show ?thesis
    by (simp add: proj status_token_def recorded_def new_result_def new_events_def
        is_progress_line_tests)
next
  case (ok g1 k1 g2 k2 g3 k3)
  then show ?thesis
    by (simp add: proj status_token_def recorded_def new_result_def new_events_def
        is_progress_line_tests)
qed

subsection \<open>The cutoff check\<close>



lemma explode_10:
  assumes "length d = 10"
  shows "d = [d ! 0, d ! 1, d ! 2, d ! 3, d ! 4, d ! 5, d ! 6, d ! 7, d ! 8, d ! 9]"
proof (rule nth_equalityI)
  show "length d = length [d ! 0, d ! 1, d ! 2, d ! 3, d ! 4, d ! 5, d ! 6, d ! 7, d ! 8, d ! 9]"
    using assms by simp
next
  fix i assume "i < length d"
  with assms have "i = 0 \<or> i = 1 \<or> i = 2 \<or> i = 3 \<or> i = 4 \<or> i = 5 \<or> i = 6 \<or> i = 7 \<or> i = 8 \<or> i = 9"
    by arith
  then show "d ! i = [d ! 0, d ! 1, d ! 2, d ! 3, d ! 4, d ! 5, d ! 6, d ! 7, d ! 8, d ! 9] ! i"
    by (elim disjE) simp_all
qed


text \<open>The form \<^verbatim>\<open>20YY-MM-DD\<close>: ten characters, the first two \<^verbatim>\<open>20\<close>, digits for Y, M and D.\<close>

definition is_20yy_mm_dd :: "string \<Rightarrow> bool" where
  "is_20yy_mm_dd s \<longleftrightarrow>
     length s = 10 \<and> s ! 0 = CHR ''2'' \<and> s ! 1 = CHR ''0'' \<and> is_digit (s ! 2) \<and> is_digit (s ! 3)
     \<and> s ! 4 = CHR ''-'' \<and> is_digit (s ! 5) \<and> is_digit (s ! 6)
     \<and> s ! 7 = CHR ''-'' \<and> is_digit (s ! 8) \<and> is_digit (s ! 9)"

definition ends_with_line_feed :: "string \<Rightarrow> bool" where
  "ends_with_line_feed s \<longleftrightarrow> s \<noteq> [] \<and> last s = CHR 0x0A"

lemma is_20yy_mm_dd_iff:
  "is_20yy_mm_dd s \<longleftrightarrow>
     (\<exists>y1 y2 m1 m2 d1 d2. is_digit y1 \<and> is_digit y2 \<and> is_digit m1 \<and> is_digit m2 \<and> is_digit d1 \<and> is_digit d2
        \<and> s = [CHR ''2'', CHR ''0'', y1, y2, CHR ''-'', m1, m2, CHR ''-'', d1, d2])"
  (is "?L \<longleftrightarrow> ?R")
proof
  assume l: ?L
  then have len: "length s = 10" by (simp add: is_20yy_mm_dd_def)
  from l have f: "s ! 0 = CHR ''2''" "s ! 1 = CHR ''0''" "is_digit (s ! 2)" "is_digit (s ! 3)"
    "s ! 4 = CHR ''-''" "is_digit (s ! 5)" "is_digit (s ! 6)" "s ! 7 = CHR ''-''"
    "is_digit (s ! 8)" "is_digit (s ! 9)"
    by (simp_all add: is_20yy_mm_dd_def)
  have "s = [CHR ''2'', CHR ''0'', s ! 2, s ! 3, CHR ''-'', s ! 5, s ! 6, CHR ''-'', s ! 8, s ! 9]"
    using explode_10[OF len] f by simp
  with f show ?R by blast
next
  assume ?R
  then show ?L by (auto simp: is_20yy_mm_dd_def)
qed


lemma is_20yy_mm_dd_no_line_feed: "is_20yy_mm_dd s \<Longrightarrow> \<not> ends_with_line_feed s"
  by (auto simp: is_20yy_mm_dd_iff ends_with_line_feed_def is_digit_def code_def)






subsection \<open>The loop\<close>


definition new_results :: "state \<Rightarrow> state \<Rightarrow> result list" where
  "new_results st st' = drop (length (results st)) (results st')"

lemma new_results_append: "results st' = results st @ rs \<Longrightarrow> new_results st st' = rs"
  by (simp add: new_results_def)




subsection \<open>Runs that return\<close>

text \<open>Every pause ends: from every look on, some later look finds the flag gone.\<close>

definition pauses_end :: "world \<Rightarrow> bool" where
  "pauses_end w \<longleftrightarrow> (\<forall>k. \<exists>j. \<not> pause_flag_at w (k + j))"

lemma wait_if_paused_returns:
  assumes "pauses_end w"
  shows "\<exists>st'. wait_if_paused w path ctx st = Some st'"
proof (cases "is_null_or_white_space path")
  case True
  then show ?thesis by (simp add: wait_if_paused_def)
next
  case False
  define n where "n = (LEAST j. \<not> pause_flag_at w (polls st + j))"
  from assms have ex: "\<exists>j. \<not> pause_flag_at w (polls st + j)"
    by (simp add: pauses_end_def)
  then have gone: "\<not> pause_flag_at w (polls st + n)"
    unfolding n_def by (rule LeastI_ex)
  have before: "\<forall>j<n. pause_flag_at w (polls st + j)"
    unfolding n_def using not_less_Least by blast
  from wait_if_paused_clear[OF False before gone] show ?thesis by blast
qed

lemma recognize_file_returns:
  "pauses_end w \<Longrightarrow> \<exists>st'. recognize_file p w n f sd st = Some st'"
  using wait_if_paused_returns[of w "pause_flag_file p" "''before whisper''" st]
  by (auto simp: recognize_file_def Let_def)

lemma convert_file_returns:
  "pauses_end w \<Longrightarrow> \<exists>st'. convert_file p w n f sd st = Some st'"
  using wait_if_paused_returns[of w "pause_flag_file p" "''before ffmpeg''" st]
    recognize_file_returns[of w p n f sd]
  by (auto simp: convert_file_def Let_def)

lemma process_file_returns:
  "pauses_end w \<Longrightarrow> \<exists>st'. process_file p w out n f st = Some st'"
  using wait_if_paused_returns[of w "pause_flag_file p" "''before next file''" st]
    convert_file_returns[of w p n f]
  by (auto simp: process_file_def transcribe_file_def Let_def)





subsection \<open>The whole run\<close>


lemma prepare_pause_flag_proj [proj]:
  "results (prepare_pause_flag p w st) = results st"
  "processed (prepare_pause_flag p w st) = processed st"
  "progress_lines (trace (prepare_pause_flag p w st)) = progress_lines (trace st)"
  by (simp_all add: prepare_pause_flag_def Let_def proj is_progress_line_tests)

lemma announce_run_proj [proj]:
  "results (announce_run p n st) = results st"
  "processed (announce_run p n st) = processed st"
  "progress_lines (trace (announce_run p n st))
     = progress_lines (trace st) @ [progress_line 0 n ''start'' []]"
  by (simp_all add: announce_run_def Let_def proj is_progress_line_tests)


text \<open>The two ways through the script after its checks: no media file, or the loop.\<close>

definition scan_line :: "params \<Rightarrow> string \<Rightarrow> event" where
  "scan_line p ir =
     Write_Host (''Scanning '' @ (if no_recursive p then ''non-recursive'' else ''recursive'')
       @ '' in: '' @ ir)"


lemma scan_line_progress [simp]: "progress_of (scan_line p ir) = []"
  by (simp add: scan_line_def is_progress_line_tests)


subsection \<open>The exit code\<close>



text \<open>Without a pause flag the loop body is a function of the state.\<close>

lemma process_file_no_pause:
  assumes "is_null_or_white_space (pause_flag_file p)"
  shows "process_file p w out n f st =
     Some (if after_cutoff p f then skip_by_date p n f (begin_file f st)
           else if raw_path_of out f \<in> paths (prepare_directories out f st) \<and> \<not> force p
           then skip_existing out n f (prepare_directories out f (begin_file f st))
           else if fst (run_ffmpeg w f) \<noteq> 0
           then fail_ffmpeg n f (service_dir_of out f)
                  (invoke_ffmpeg w f (service_dir_of out f)
                    (prepare_directories out f (begin_file f st)))
           else if fst (run_whisper w f) \<noteq> 0
           then fail_whisper n f (service_dir_of out f)
                  (invoke_whisper p w f (service_dir_of out f)
                    (invoke_ffmpeg w f (service_dir_of out f)
                      (prepare_directories out f (begin_file f st))))
           else finish_file p n f (service_dir_of out f)
                  (invoke_whisper p w f (service_dir_of out f)
                    (invoke_ffmpeg w f (service_dir_of out f)
                      (prepare_directories out f (begin_file f st)))))"
  using assms
  by (simp add: process_file_def transcribe_file_def convert_file_def recognize_file_def
      wait_if_paused_def Let_def proj)

subsection \<open>An example run\<close>


definition example_run_params :: params where
  "example_run_params = example_params\<lparr>force := True\<rparr>"



subsection \<open>The progress lines\<close>













section \<open>Existing transcripts and failed engines\<close>

subsection \<open>Paths of the output directory\<close>

text \<open>A path without the separators at its end.\<close>

definition strip_sep :: "string \<Rightarrow> string" where
  "strip_sep s = rev (dropWhile is_path_sep (rev s))"

lemma join_path_strip: "join_path parent child = strip_sep parent @ [CHR 0x5C] @ dropWhile is_path_sep child"
  by (simp add: join_path_def strip_sep_def)

lemma strip_sep_rest: "\<exists>t. s = strip_sep s @ t \<and> (\<forall>c\<in>set t. is_path_sep c)"
proof -
  have "rev s = takeWhile is_path_sep (rev s) @ dropWhile is_path_sep (rev s)" by simp
  then have "s = rev (dropWhile is_path_sep (rev s)) @ rev (takeWhile is_path_sep (rev s))"
    by (metis rev_append rev_rev_ident)
  moreover have "\<forall>c\<in>set (rev (takeWhile is_path_sep (rev s))). is_path_sep c"
    by (auto dest: set_takeWhileD)
  ultimately show ?thesis unfolding strip_sep_def by blast
qed

lemma strip_sep_append: "\<exists>u. strip_sep (strip_sep a @ b) = strip_sep a @ u"
proof (cases "\<forall>c\<in>set b. is_path_sep c")
  case True
  then have "dropWhile is_path_sep (rev b @ rev (strip_sep a)) = dropWhile is_path_sep (rev (strip_sep a))"
    by (simp add: dropWhile_append)
  moreover have "dropWhile is_path_sep (rev (strip_sep a)) = rev (strip_sep a)"
    unfolding strip_sep_def rev_rev_ident by (rule dropWhile_idem)
  ultimately have "strip_sep (strip_sep a @ b) = strip_sep a"
    by (simp add: strip_sep_def[of "strip_sep a @ b"])
  then show ?thesis by simp
next
  case False
  then have "dropWhile is_path_sep (rev b @ rev (strip_sep a))
      = dropWhile is_path_sep (rev b) @ rev (strip_sep a)"
    by (auto simp: dropWhile_append)
  then have "strip_sep (strip_sep a @ b) = strip_sep a @ rev (dropWhile is_path_sep (rev b))"
    by (simp add: strip_sep_def[of "strip_sep a @ b"])
  then show ?thesis by blast
qed

lemma not_sep_r: "\<not> is_path_sep (CHR ''r'')"
  by (simp add: is_path_sep_def)

text \<open>A file of a directory is neither the directory nor its parent directory.\<close>

lemma child_not_parent:
  assumes "\<exists>c\<in>set name. \<not> is_path_sep c"
  shows "strip_sep d @ u @ [CHR 0x5C] @ name \<noteq> d"
proof
  assume eq: "strip_sep d @ u @ [CHR 0x5C] @ name = d"
  from strip_sep_rest[of d] obtain t where t: "d = strip_sep d @ t" "\<forall>c\<in>set t. is_path_sep c"
    by blast
  from eq t(1) have "strip_sep d @ (u @ [CHR 0x5C] @ name) = strip_sep d @ t" by simp
  then have "u @ [CHR 0x5C] @ name = t" by (simp only: same_append_eq)
  then have "set name \<subseteq> set t" by auto
  with t(2) assms show False by blast
qed

lemma raw_path_not_dirs:
  "raw_path_of out f \<noteq> service_dir_of out f"
  "raw_path_of out f \<noteq> join_path out (get_date_bucket f)"
proof -
  let ?dd = "join_path out (get_date_bucket f)"
  let ?sd = "service_dir_of out f"
  have name: "\<exists>c\<in>set ''raw.txt''. \<not> is_path_sep c" by (simp add: is_path_sep_def)
  have raw: "raw_path_of out f = strip_sep ?sd @ [CHR 0x5C] @ ''raw.txt''"
    by (simp add: raw_path_of_def join_path_strip is_path_sep_def)
  from child_not_parent[OF name, of ?sd "[]"] raw
  show "raw_path_of out f \<noteq> ?sd" by simp
  have sd: "?sd = strip_sep ?dd @ [CHR 0x5C] @ dropWhile is_path_sep (get_slug (base_name f))"
    by (simp add: service_dir_of_def join_path_strip)
  from strip_sep_append[of ?dd "[CHR 0x5C] @ dropWhile is_path_sep (get_slug (base_name f))"]
  obtain u where "strip_sep ?sd = strip_sep ?dd @ u" unfolding sd[symmetric] by blast
  with raw have "raw_path_of out f = strip_sep ?dd @ u @ [CHR 0x5C] @ ''raw.txt''" by simp
  with child_not_parent[OF name, of ?dd u] show "raw_path_of out f \<noteq> ?dd" by simp
qed

lemma raw_path_prepared:
  "raw_path_of out f \<in> paths (prepare_directories out f st) \<longleftrightarrow> raw_path_of out f \<in> paths st"
  using raw_path_not_dirs[of out f] by (simp add: proj)

lemma raw_path_not_engine_files:
  "raw_path_of out f \<noteq> join_path (service_dir_of out f) ''audio-source.wav''"
  "raw_path_of out f \<noteq> join_path (service_dir_of out f) ''audio-source'' @ ''.txt''"
  "raw_path_of out f \<noteq> join_path (service_dir_of out f) ''audio-source'' @ ''.json''"
  by (simp_all add: raw_path_of_def join_path_strip is_path_sep_def)

subsection \<open>The idempotence check\<close>

text \<open>The engine invocations among the events of one pass through the loop body.\<close>

lemma process_file_engine_events:
  assumes "process_file p w out n f st = Some st'"
  shows "trace st' = trace st @ new_events st st'"
    and "after_cutoff p f \<or> (raw_path_of out f \<in> paths st \<and> \<not> force p) \<Longrightarrow>
         Invoke_Ffmpeg args c \<notin> set (new_events st st')
         \<and> Invoke_Whisper args c \<notin> set (new_events st st')"
    and "after_cutoff p f \<Longrightarrow> status (new_result st') = ''skipped-date''"
    and "\<not> after_cutoff p f \<Longrightarrow> raw_path_of out f \<in> paths st \<Longrightarrow> \<not> force p \<Longrightarrow>
         status (new_result st') = ''skipped''"
proof -
  show "trace st' = trace st @ new_events st st'"
    using process_file_progress[OF assms] by blast
  show "Invoke_Ffmpeg args c \<notin> set (new_events st st')
         \<and> Invoke_Whisper args c \<notin> set (new_events st st')"
    if "after_cutoff p f \<or> (raw_path_of out f \<in> paths st \<and> \<not> force p)"
    using assms that
  proof (cases rule: process_file_cases)
    case (by_date g1 k1)
    with gate_closed_no_engine[OF by_date(1), of args c] show ?thesis
      by (simp add: proj new_events_def)
  next
    case (existing g1 k1)
    with gate_closed_no_engine[OF existing(1), of args c] show ?thesis
      by (simp add: proj new_events_def)
  qed (simp_all add: raw_path_prepared)
  show "status (new_result st') = ''skipped-date''" if "after_cutoff p f"
    using assms that
    by (cases rule: process_file_cases) (simp_all add: proj new_result_def)
  show "status (new_result st') = ''skipped''"
    if "\<not> after_cutoff p f" "raw_path_of out f \<in> paths st" "\<not> force p"
    using assms that
    by (cases rule: process_file_cases) (simp_all add: proj new_result_def raw_path_prepared)
qed

text \<open>
  C1 (amended). A file whose \<^verbatim>\<open>raw.txt\<close> exists when the loop reaches it, with
  \<^verbatim>\<open>-Force\<close> not set: if pauses end, the loop body returns; and when it returns, it has
  added one entry of \<^verbatim>\<open>$results\<close> for this file, with the status \<^verbatim>\<open>skipped\<close> if the
  cutoff filter does not exclude the file and \<^verbatim>\<open>skipped-date\<close> if it does, and no
  invocation of either engine is among its events.
\<close>

theorem existing_transcript_skipped:
  "raw_path_of out f \<in> paths st \<and> \<not> force p \<longrightarrow>
     (pauses_end w \<longrightarrow> (\<exists>st'. process_file p w out n f st = Some st'))
     \<and> (process_file p w out n f st = Some st' \<longrightarrow>
          results st' = results st @ [new_result st']
          \<and> source (new_result st') = full_name f
          \<and> status (new_result st') = (if after_cutoff p f then ''skipped-date'' else ''skipped'')
          \<and> trace st' = trace st @ new_events st st'
          \<and> (\<forall>args c. Invoke_Ffmpeg args c \<notin> set (new_events st st')
                      \<and> Invoke_Whisper args c \<notin> set (new_events st st')))"
proof (intro impI conjI allI)
  assume "pauses_end w"
  then show "\<exists>st'. process_file p w out n f st = Some st'"
    by (rule process_file_returns)
next
  assume a: "raw_path_of out f \<in> paths st \<and> \<not> force p"
    and pf: "process_file p w out n f st = Some st'"
  from process_file_progress[OF pf]
  show "results st' = results st @ [new_result st']" and "source (new_result st') = full_name f"
    by blast+
  show "status (new_result st') = (if after_cutoff p f then ''skipped-date'' else ''skipped'')"
    using process_file_engine_events(3,4)[OF pf] a by simp
  show "trace st' = trace st @ new_events st st'"
    by (rule process_file_engine_events(1)[OF pf])
  fix args c
  from process_file_engine_events(2)[OF pf, of args c] a
  show "Invoke_Ffmpeg args c \<notin> set (new_events st st')"
    and "Invoke_Whisper args c \<notin> set (new_events st st')"
    by blast+
qed

subsection \<open>Failed engine invocations\<close>

lemma process_file_failed:
  assumes "process_file p w out n f st = Some st'"
    and "Invoke_Ffmpeg args c \<in> set (new_events st st') \<or> Invoke_Whisper args c \<in> set (new_events st st')"
    and "c \<noteq> 0"
  shows "status (new_result st') = ''error''"
    and "raw_path_of out f \<in> paths st' \<longleftrightarrow> raw_path_of out f \<in> paths st"
    and "\<not> force p \<Longrightarrow> raw_path_of out f \<notin> paths st"
proof -
  have "status (new_result st') = ''error''
      \<and> (raw_path_of out f \<in> paths st' \<longleftrightarrow> raw_path_of out f \<in> paths st)
      \<and> (\<not> force p \<longrightarrow> raw_path_of out f \<notin> paths st)"
    using assms(1)
  proof (cases rule: process_file_cases)
    case (by_date g1 k1)
    with gate_closed_no_engine[OF by_date(1), of args c] assms(2) show ?thesis
      by (simp add: proj new_events_def)
  next
    case (existing g1 k1)
    with gate_closed_no_engine[OF existing(1), of args c] assms(2) show ?thesis
      by (simp add: proj new_events_def)
  next
    case (ffmpeg_failed g1 k1 g2 k2)
    with raw_path_not_dirs[of out f] raw_path_not_engine_files[of out f] show ?thesis
      by (auto simp: proj new_result_def raw_path_prepared)
  next
    case (whisper_failed g1 k1 g2 k2 g3 k3)
    with raw_path_not_dirs[of out f] raw_path_not_engine_files[of out f] show ?thesis
      by (auto simp: proj new_result_def raw_path_prepared)
  next
    case (ok g1 k1 g2 k2 g3 k3)
    with gate_closed_no_engine[OF ok(1), of args c] gate_closed_no_engine[OF ok(2), of args c]
      gate_closed_no_engine[OF ok(3), of args c] assms(2,3) show ?thesis
      by (simp add: proj new_events_def)
  qed
  then show "status (new_result st') = ''error''"
    and "raw_path_of out f \<in> paths st' \<longleftrightarrow> raw_path_of out f \<in> paths st"
    and "\<not> force p \<Longrightarrow> raw_path_of out f \<notin> paths st"
    by blast+
qed

text \<open>Without its transcript, and without \<^verbatim>\<open>-Force\<close>, a file is not skipped for its transcript.\<close>

lemma process_file_not_skipped:
  assumes "process_file p w out n f st = Some st'" and "raw_path_of out f \<notin> paths st"
  shows "status (new_result st') \<noteq> ''skipped''"
  using assms
  by (cases rule: process_file_cases)
    (simp_all add: proj new_result_def raw_path_prepared raw_path_not_dirs)

text \<open>
  C2 (amended). When an invocation of the conversion engine or of the recognition engine
  for a file exits with a code other than 0, the file is recorded with the status
  \<^verbatim>\<open>error\<close> and its \<^verbatim>\<open>raw.txt\<close> is neither created nor removed: it exists afterwards
  exactly if it existed when the loop reached the file. Without \<^verbatim>\<open>-Force\<close> it does not
  exist afterwards, and a second pass for the file is not skipped for its transcript.
\<close>

theorem failed_engine_keeps_transcript:
  "process_file p w out n f st = Some st'
   \<and> (Invoke_Ffmpeg args c \<in> set (new_events st st') \<or> Invoke_Whisper args c \<in> set (new_events st st'))
   \<and> c \<noteq> 0 \<longrightarrow>
     status (new_result st') = ''error'' \<and> source (new_result st') = full_name f
     \<and> (raw_path_of out f \<in> paths st' \<longleftrightarrow> raw_path_of out f \<in> paths st)
     \<and> (\<not> force p \<longrightarrow>
          raw_path_of out f \<notin> paths st'
          \<and> (\<forall>st''. process_file p w out n f st' = Some st'' \<longrightarrow>
                status (new_result st'') \<noteq> ''skipped''))"
proof (intro impI)
  assume a: "process_file p w out n f st = Some st'
   \<and> (Invoke_Ffmpeg args c \<in> set (new_events st st') \<or> Invoke_Whisper args c \<in> set (new_events st st'))
   \<and> c \<noteq> 0"
  then have pf: "process_file p w out n f st = Some st'"
    and ev: "Invoke_Ffmpeg args c \<in> set (new_events st st') \<or> Invoke_Whisper args c \<in> set (new_events st st')"
    and c: "c \<noteq> 0"
    by blast+
  note fl = process_file_failed[OF pf ev c]
  have src: "source (new_result st') = full_name f"
    using process_file_progress[OF pf] by blast
  have retry: "raw_path_of out f \<notin> paths st'
          \<and> (\<forall>st''. process_file p w out n f st' = Some st'' \<longrightarrow>
                status (new_result st'') \<noteq> ''skipped'')" if "\<not> force p"
  proof -
    from fl(2) fl(3)[OF that] have "raw_path_of out f \<notin> paths st'" by simp
    then show ?thesis using process_file_not_skipped by blast
  qed
  from fl(1) src fl(2) retry
  show "status (new_result st') = ''error'' \<and> source (new_result st') = full_name f
     \<and> (raw_path_of out f \<in> paths st' \<longleftrightarrow> raw_path_of out f \<in> paths st)
     \<and> (\<not> force p \<longrightarrow>
          raw_path_of out f \<notin> paths st'
          \<and> (\<forall>st''. process_file p w out n f st' = Some st'' \<longrightarrow>
                status (new_result st'') \<noteq> ''skipped''))"
    by blast
qed

definition example_state :: "string set \<Rightarrow> state" where
  "example_state ps = \<lparr>paths = ps, polls = 0, trace = [], results = [], processed = 0\<rparr>"

lemma example_pauses_end: "pauses_end (example_world files)"
  unfolding pauses_end_def
proof
  fix k
  have "\<not> pause_flag_at (example_world files) (k + 2)" by (simp add: example_world_def)
  then show "\<exists>j. \<not> pause_flag_at (example_world files) (k + j)" ..
qed

lemma example_no_pause_flag:
  "is_null_or_white_space (pause_flag_file example_params)"
  "is_null_or_white_space (pause_flag_file example_run_params)"
  "is_null_or_white_space (pause_flag_file (example_params\<lparr>before_date := d\<rparr>))"
  by (simp_all add: example_params_def example_run_params_def is_null_or_white_space_def)

theorem existing_transcript_skipped_witness:
  "raw_path_of ''C:/out'' (example_file ''2024-03-10_Service'')
     \<in> paths (example_state {raw_path_of ''C:/out'' (example_file ''2024-03-10_Service'')})
   \<and> \<not> force example_params
   \<and> pauses_end (example_world [])
   \<and> process_file example_params (example_world []) ''C:/out'' 1 (example_file ''2024-03-10_Service'')
        (example_state {raw_path_of ''C:/out'' (example_file ''2024-03-10_Service'')}) \<noteq> None
   \<and> status (new_result (the (process_file example_params (example_world []) ''C:/out'' 1
        (example_file ''2024-03-10_Service'')
        (example_state {raw_path_of ''C:/out'' (example_file ''2024-03-10_Service'')})))) = ''skipped''"
proof -
  let ?f = "example_file ''2024-03-10_Service''"
  let ?st = "example_state {raw_path_of ''C:/out'' ?f}"
  let ?r = "process_file example_params (example_world []) ''C:/out'' 1 ?f ?st"
  have h: "raw_path_of ''C:/out'' ?f \<in> paths ?st \<and> \<not> force example_params"
    by (simp add: example_state_def example_params_def)
  have nc: "\<not> after_cutoff example_params ?f"
    by (simp add: after_cutoff_def example_params_def is_null_or_white_space_def)
  note t = existing_transcript_skipped[where out = "''C:/out''" and f = ?f and st = ?st
      and p = example_params and w = "example_world []" and n = 1 and st' = "the ?r"]
  from t h have both: "(pauses_end (example_world []) \<longrightarrow> (\<exists>st'. ?r = Some st'))
     \<and> (?r = Some (the ?r) \<longrightarrow>
          results (the ?r) = results ?st @ [new_result (the ?r)]
          \<and> source (new_result (the ?r)) = full_name ?f
          \<and> status (new_result (the ?r)) = (if after_cutoff example_params ?f then ''skipped-date'' else ''skipped'')
          \<and> trace (the ?r) = trace ?st @ new_events ?st (the ?r)
          \<and> (\<forall>args c. Invoke_Ffmpeg args c \<notin> set (new_events ?st (the ?r))
                      \<and> Invoke_Whisper args c \<notin> set (new_events ?st (the ?r))))"
    by (rule mp)
  from both example_pauses_end[of "[]"] have ex: "\<exists>st'. ?r = Some st'" by blast
  then have some: "?r = Some (the ?r)" by auto
  with both nc have "status (new_result (the ?r)) = ''skipped''" by simp
  with h example_pauses_end[of "[]"] ex show ?thesis by auto
qed

text \<open>
  A file dated after the cutoff whose \<^verbatim>\<open>raw.txt\<close> exists, without \<^verbatim>\<open>-Force\<close>: the status
  recorded is \<^verbatim>\<open>skipped-date\<close>, not \<^verbatim>\<open>skipped\<close>.
\<close>

theorem existing_transcript_counterexample:
  "raw_path_of ''C:/out'' (example_file ''2024-03-10_Service'')
     \<in> paths (example_state {raw_path_of ''C:/out'' (example_file ''2024-03-10_Service'')})
   \<and> \<not> force (example_params\<lparr>before_date := ''2024-01-01''\<rparr>)
   \<and> process_file (example_params\<lparr>before_date := ''2024-01-01''\<rparr>) (example_world []) ''C:/out'' 1
        (example_file ''2024-03-10_Service'')
        (example_state {raw_path_of ''C:/out'' (example_file ''2024-03-10_Service'')}) \<noteq> None
   \<and> status (last (results (the (process_file (example_params\<lparr>before_date := ''2024-01-01''\<rparr>)
        (example_world []) ''C:/out'' 1 (example_file ''2024-03-10_Service'')
        (example_state {raw_path_of ''C:/out'' (example_file ''2024-03-10_Service'')})))))
       = ''skipped-date''
   \<and> ''skipped-date'' \<noteq> ''skipped''"
proof -
  let ?f = "example_file ''2024-03-10_Service''"
  let ?p = "example_params\<lparr>before_date := ''2024-01-01''\<rparr>"
  let ?st = "example_state {raw_path_of ''C:/out'' ?f}"
  have b: "get_date_bucket ?f = ''2024-03-10''" by code_simp
  have ac: "after_cutoff ?p ?f"
    unfolding after_cutoff_def b by (simp add: example_params_def is_null_or_white_space_def is_white_space_def code_def)
  have r: "process_file ?p (example_world []) ''C:/out'' 1 ?f ?st = Some (skip_by_date ?p 1 ?f (begin_file ?f ?st))"
    using ac by (simp add: process_file_no_pause[OF example_no_pause_flag(3)])
  show ?thesis
    unfolding r by (simp add: proj example_state_def example_params_def)
qed

lemma example_broken:
  assumes "is_null_or_white_space (pause_flag_file p)" "is_null_or_white_space (before_date p)"
    and "raw_path_of out (example_file ''broken'') \<in> paths st \<longrightarrow> force p"
  shows "process_file p (example_world files) out n (example_file ''broken'') st
     = Some (fail_ffmpeg n (example_file ''broken'') (service_dir_of out (example_file ''broken''))
              (invoke_ffmpeg (example_world files) (example_file ''broken'')
                (service_dir_of out (example_file ''broken''))
                (prepare_directories out (example_file ''broken'')
                  (begin_file (example_file ''broken'') st))))"
proof -
  have "\<not> after_cutoff p (example_file ''broken'')"
    using assms(2) by (simp add: after_cutoff_def)
  moreover have "fst (run_ffmpeg (example_world files) (example_file ''broken'')) \<noteq> 0"
    by (simp add: example_world_def example_file_def)
  ultimately show ?thesis
    using assms(3) by (auto simp: process_file_no_pause[OF assms(1)] raw_path_prepared)
qed

theorem failed_engine_keeps_transcript_witness:
  "process_file example_params (example_world []) ''C:/out'' 1 (example_file ''broken'')
       (example_state {}) \<noteq> None
   \<and> Invoke_Ffmpeg (ffmpeg_args (example_file ''broken'')
         (service_dir_of ''C:/out'' (example_file ''broken''))) 1
       \<in> set (new_events (example_state {})
           (the (process_file example_params (example_world []) ''C:/out'' 1
                  (example_file ''broken'') (example_state {}))))
   \<and> (1 :: int) \<noteq> 0
   \<and> \<not> force example_params
   \<and> status (new_result (the (process_file example_params (example_world []) ''C:/out'' 1
                  (example_file ''broken'') (example_state {})))) = ''error''
   \<and> raw_path_of ''C:/out'' (example_file ''broken'')
       \<notin> paths (the (process_file example_params (example_world []) ''C:/out'' 1
                  (example_file ''broken'') (example_state {})))"
proof -
  let ?f = "example_file ''broken''"
  let ?st = "example_state {}"
  let ?sd = "service_dir_of ''C:/out'' ?f"
  let ?r = "process_file example_params (example_world []) ''C:/out'' 1 ?f ?st"
  define st' where "st' = fail_ffmpeg 1 ?f ?sd (invoke_ffmpeg (example_world []) ?f ?sd
                (prepare_directories ''C:/out'' ?f (begin_file ?f ?st)))"
  have r: "?r = Some st'"
    unfolding st'_def
    by (rule example_broken)
      (simp_all add: example_params_def is_null_or_white_space_def example_state_def)
  have code: "fst (run_ffmpeg (example_world []) ?f) = 1"
    by (simp add: example_world_def example_file_def)
  have ev: "Invoke_Ffmpeg (ffmpeg_args ?f ?sd) 1 \<in> set (new_events ?st st')"
    by (simp add: st'_def new_events_def proj code)
  have nf: "\<not> force example_params" by (simp add: example_params_def)
  have hyp: "process_file example_params (example_world []) ''C:/out'' 1 ?f ?st = Some st'
     \<and> (Invoke_Ffmpeg (ffmpeg_args ?f ?sd) 1 \<in> set (new_events ?st st')
        \<or> Invoke_Whisper (ffmpeg_args ?f ?sd) 1 \<in> set (new_events ?st st'))
     \<and> (1 :: int) \<noteq> 0"
    using r ev by simp
  note t = failed_engine_keeps_transcript[where p = example_params and w = "example_world []"
      and out = "''C:/out''" and n = 1 and f = ?f and st = ?st and st' = st'
      and args = "ffmpeg_args ?f ?sd" and c = 1]
  from t hyp have concl: "status (new_result st') = ''error'' \<and> source (new_result st') = full_name ?f
     \<and> (raw_path_of ''C:/out'' ?f \<in> paths st' \<longleftrightarrow> raw_path_of ''C:/out'' ?f \<in> paths ?st)
     \<and> (\<not> force example_params \<longrightarrow>
          raw_path_of ''C:/out'' ?f \<notin> paths st'
          \<and> (\<forall>st''. process_file example_params (example_world []) ''C:/out'' 1 ?f st' = Some st'' \<longrightarrow>
                status (new_result st'') \<noteq> ''skipped''))"
    by (rule mp)
  from concl have s: "status (new_result st') = ''error''" by (rule conjunct1)
  from concl nf have nr: "raw_path_of ''C:/out'' ?f \<notin> paths st'" by blast
  from s nr ev nf show ?thesis unfolding r by simp
qed

text \<open>
  With \<^verbatim>\<open>-Force\<close> and a \<^verbatim>\<open>raw.txt\<close> left by an earlier run, a failed conversion leaves that
  \<^verbatim>\<open>raw.txt\<close> in place, and a later pass without \<^verbatim>\<open>-Force\<close> skips the file for it.
\<close>

theorem failed_engine_counterexample:
  "process_file example_run_params (example_world []) ''C:/out'' 1 (example_file ''broken'')
       (example_state {raw_path_of ''C:/out'' (example_file ''broken'')}) \<noteq> None
   \<and> Invoke_Ffmpeg (ffmpeg_args (example_file ''broken'')
         (service_dir_of ''C:/out'' (example_file ''broken''))) 1
       \<in> set (trace (the (process_file example_run_params (example_world []) ''C:/out'' 1
                  (example_file ''broken'')
                  (example_state {raw_path_of ''C:/out'' (example_file ''broken'')}))))
   \<and> (1 :: int) \<noteq> 0
   \<and> raw_path_of ''C:/out'' (example_file ''broken'')
       \<in> paths (the (process_file example_run_params (example_world []) ''C:/out'' 1
                  (example_file ''broken'')
                  (example_state {raw_path_of ''C:/out'' (example_file ''broken'')})))
   \<and> status (last (results (the (process_file example_params (example_world []) ''C:/out'' 1
        (example_file ''broken'')
        (the (process_file example_run_params (example_world []) ''C:/out'' 1
                  (example_file ''broken'')
                  (example_state {raw_path_of ''C:/out'' (example_file ''broken'')}))))))) = ''skipped''"
proof -
  let ?f = "example_file ''broken''"
  let ?st = "example_state {raw_path_of ''C:/out'' ?f}"
  let ?sd = "service_dir_of ''C:/out'' ?f"
  define st' where "st' = fail_ffmpeg 1 ?f ?sd (invoke_ffmpeg (example_world []) ?f ?sd
                (prepare_directories ''C:/out'' ?f (begin_file ?f ?st)))"
  have r: "process_file example_run_params (example_world []) ''C:/out'' 1 ?f ?st = Some st'"
    unfolding st'_def
    by (rule example_broken)
      (simp_all add: example_run_params_def example_params_def is_null_or_white_space_def)
  have code: "fst (run_ffmpeg (example_world []) ?f) = 1"
    by (simp add: example_world_def example_file_def)
  have ev: "Invoke_Ffmpeg (ffmpeg_args ?f ?sd) 1 \<in> set (trace st')"
    by (simp add: st'_def proj code)
  have raw: "raw_path_of ''C:/out'' ?f \<in> paths st'"
    by (simp add: st'_def proj example_state_def)
  have nc: "\<not> after_cutoff example_params ?f"
    by (simp add: after_cutoff_def example_params_def is_null_or_white_space_def)
  have nf: "\<not> force example_params" by (simp add: example_params_def)
  have again: "process_file example_params (example_world []) ''C:/out'' 1 ?f st'
      = Some (skip_existing ''C:/out'' 1 ?f (prepare_directories ''C:/out'' ?f (begin_file ?f st')))"
    using nc raw nf
    by (simp add: process_file_no_pause[OF example_no_pause_flag(1)] raw_path_prepared)
  show ?thesis
    unfolding r using ev raw again by (simp add: proj)
qed

end
